theory Spec2Isabelle
  imports Main "HOL-Library.AList"
begin

section \<open>LRUCache: include/utils/LRUCache.h\<close>

text \<open>
  Time points of the steady clock are counted in clock ticks (\<open>int\<close>); the time-to-live
  is kept in seconds, as the field \<open>ttl\<close> is, and converted when it is added to a time
  point. \<open>get\<close>, \<open>put\<close> and \<open>contains\<close> read the clock once; the reading is the argument
  \<open>now\<close>. The readings that \<open>cleanupExpired\<close> takes for the entries of one sweep are taken
  to be the same instant.

  \<open>cache_map\<close> is an association list with one pair per key (an \<open>unordered_map\<close>), so
  that \<open>size\<close> is its length. The iterator \<open>list_it\<close> of an entry always refers to the
  node of \<open>lru_list\<close> that holds the entry's key, so it is not stored: erasing or
  splicing through it acts on that key's node. Member names are written without the
  trailing underscore of the source (\<open>max_size_\<close>, \<open>ttl_\<close>, \<open>lru_list_\<close>, \<open>cache_map_\<close>).
\<close>

definition ticks_per_second :: int where
  "ticks_per_second = 1000000000"

record 'v CacheEntry =
  entry_value :: 'v
  expiry_time :: int

record ('k, 'v) LRUCache =
  max_size :: nat
  ttl :: int
  lru_list :: "'k list"
  cache_map :: "('k \<times> 'v CacheEntry) list"

definition new_LRUCache :: "nat \<Rightarrow> int \<Rightarrow> ('k, 'v) LRUCache" where
  "new_LRUCache n ttl_seconds =
     \<lparr>max_size = n, ttl = ttl_seconds, lru_list = [], cache_map = []\<rparr>"

definition find_entry :: "'k \<Rightarrow> ('k, 'v) LRUCache \<Rightarrow> 'v CacheEntry option" where
  "find_entry key c = map_of (cache_map c) key"

definition isExpired :: "int \<Rightarrow> int \<Rightarrow> bool" where
  "isExpired now expiry \<longleftrightarrow> now \<ge> expiry"

definition evictLRU :: "('k, 'v) LRUCache \<Rightarrow> ('k, 'v) LRUCache" where
  "evictLRU c =
     (if lru_list c = [] then c
      else c\<lparr>cache_map := AList.delete (last (lru_list c)) (cache_map c),
             lru_list := butlast (lru_list c)\<rparr>)"

definition evict :: "'k \<Rightarrow> ('k, 'v) LRUCache \<Rightarrow> ('k, 'v) LRUCache" where
  "evict key c =
     (case find_entry key c of
        None \<Rightarrow> c
      | Some e \<Rightarrow> c\<lparr>lru_list := remove1 key (lru_list c),
                    cache_map := AList.delete key (cache_map c)\<rparr>)"

definition evictNoLock :: "'k \<Rightarrow> ('k, 'v) LRUCache \<Rightarrow> ('k, 'v) LRUCache" where
  "evictNoLock key c =
     (case find_entry key c of
        None \<Rightarrow> c
      | Some e \<Rightarrow> c\<lparr>lru_list := remove1 key (lru_list c),
                    cache_map := AList.delete key (cache_map c)\<rparr>)"

definition get :: "'k \<Rightarrow> int \<Rightarrow> ('k, 'v) LRUCache \<Rightarrow> 'v option \<times> ('k, 'v) LRUCache" where
  "get key now c =
     (case find_entry key c of
        None \<Rightarrow> (None, c)
      | Some e \<Rightarrow>
          if isExpired now (expiry_time e) then (None, evict key c)
          else (Some (entry_value e), c\<lparr>lru_list := key # remove1 key (lru_list c)\<rparr>))"

definition emplace :: "'k \<Rightarrow> 'v CacheEntry \<Rightarrow> ('k \<times> 'v CacheEntry) list
    \<Rightarrow> ('k \<times> 'v CacheEntry) list" where
  "emplace key e m = (case map_of m key of None \<Rightarrow> (key, e) # m | Some _ \<Rightarrow> m)"

definition put :: "'k \<Rightarrow> 'v \<Rightarrow> int \<Rightarrow> ('k, 'v) LRUCache \<Rightarrow> ('k, 'v) LRUCache" where
  "put key v now c =
     (case find_entry key c of
        Some e \<Rightarrow>
          c\<lparr>cache_map :=
               AList.update key
                 \<lparr>entry_value = v, expiry_time = now + ttl c * ticks_per_second\<rparr>
                 (cache_map c),
            lru_list := key # remove1 key (lru_list c)\<rparr>
      | None \<Rightarrow>
          (let c1 = (if length (cache_map c) \<ge> max_size c then evictLRU c else c);
               l = key # lru_list c1
           in c1\<lparr>lru_list := l,
                 cache_map :=
                   emplace key
                     \<lparr>entry_value = v, expiry_time = now + ttl c * ticks_per_second\<rparr>
                     (cache_map c1)\<rparr>))"

definition remove :: "'k \<Rightarrow> ('k, 'v) LRUCache \<Rightarrow> ('k, 'v) LRUCache" where
  "remove key c = evict key c"

definition clear :: "('k, 'v) LRUCache \<Rightarrow> ('k, 'v) LRUCache" where
  "clear c = c\<lparr>cache_map := [], lru_list := []\<rparr>"

definition cache_size :: "('k, 'v) LRUCache \<Rightarrow> nat" where
  "cache_size c = length (cache_map c)"

definition contains :: "'k \<Rightarrow> int \<Rightarrow> ('k, 'v) LRUCache \<Rightarrow> bool" where
  "contains key now c =
     (case find_entry key c of None \<Rightarrow> False | Some e \<Rightarrow> \<not> isExpired now (expiry_time e))"

text \<open>
  The loop of \<open>cleanupExpired\<close> walks the keys from the back (LRU) to the front (MRU).
  On an expired entry the source calls \<open>evictNoLock(key)\<close>, counts the removal and rebuilds
  its reverse iterator from \<open>std::next(it).base()\<close>, which is an iterator to the very node
  that \<open>evictNoLock\<close> has just erased; the next test of the loop compares and dereferences
  it. C++ gives no meaning to the use of an erased node's iterator (the behaviour is
  undefined), so the source defines no result for a sweep that meets an expired entry. A
  sweep has a result only when it meets no expired entry, and then it removes nothing;
  otherwise the model has no result (\<open>None\<close>).
\<close>

fun cleanup_loop :: "int \<Rightarrow> 'k list \<Rightarrow> nat \<times> ('k, 'v) LRUCache
    \<Rightarrow> (nat \<times> ('k, 'v) LRUCache) option" where
  "cleanup_loop now [] rc = Some rc"
| "cleanup_loop now (key # rest) (removed, c) =
     (case find_entry key c of
        Some e \<Rightarrow>
          if isExpired now (expiry_time e) then None
          else cleanup_loop now rest (removed, c)
      | None \<Rightarrow> cleanup_loop now rest (removed, c))"

definition cleanupExpired :: "int \<Rightarrow> ('k, 'v) LRUCache \<Rightarrow> (nat \<times> ('k, 'v) LRUCache) option" where
  "cleanupExpired now c = cleanup_loop now (rev (lru_list c)) (0, c)"

subsection \<open>Sequences of cache operations\<close>

text \<open>
  A sequence of operations, each with the clock reading it is made at. The run of a
  sequence has no result from the point where a sweep has none.
\<close>

datatype ('k, 'v) cache_op = Get 'k | Put 'k 'v | Remove 'k | CleanupExpired

fun apply_op :: "int \<times> ('k, 'v) cache_op \<Rightarrow> ('k, 'v) LRUCache \<Rightarrow> ('k, 'v) LRUCache option" where
  "apply_op (now, Get key) c = Some (snd (get key now c))"
| "apply_op (now, Put key v) c = Some (put key v now c)"
| "apply_op (now, Remove key) c = Some (remove key c)"
| "apply_op (now, CleanupExpired) c = map_option snd (cleanupExpired now c)"

fun run_ops :: "(int \<times> ('k, 'v) cache_op) list \<Rightarrow> ('k, 'v) LRUCache \<Rightarrow> ('k, 'v) LRUCache option" where
  "run_ops [] c = Some c"
| "run_ops (tp # ops) c = (case apply_op tp c of None \<Rightarrow> None | Some c' \<Rightarrow> run_ops ops c')"

text \<open>A sequence without sweeps.\<close>

definition no_sweep :: "(int \<times> ('k, 'v) cache_op) list \<Rightarrow> bool" where
  "no_sweep ops = list_all (\<lambda>tp. snd tp \<noteq> CleanupExpired) ops"

text \<open>No operation of the sequence is a \<open>put\<close> of the given key.\<close>

definition no_put_of :: "'k \<Rightarrow> (int \<times> ('k, 'v) cache_op) list \<Rightarrow> bool" where
  "no_put_of key ops = list_all (\<lambda>(t, op). case op of Put k v \<Rightarrow> k \<noteq> key | _ \<Rightarrow> True) ops"

text \<open>
  The recency of a key, read off the sequence of operations alone: \<open>last_touch ops key\<close> is
  the position (counted from 1) of the last \<open>get\<close> or \<open>put\<close> in \<open>ops\<close> that names the key, and
  0 when no operation touches it.
\<close>

fun touched_key :: "('k, 'v) cache_op \<Rightarrow> 'k option" where
  "touched_key (Get key) = Some key"
| "touched_key (Put key v) = Some key"
| "touched_key (Remove key) = None"
| "touched_key CleanupExpired = None"

fun last_touch :: "(int \<times> ('k, 'v) cache_op) list \<Rightarrow> 'k \<Rightarrow> nat" where
  "last_touch [] key = 0"
| "last_touch (tp # ops) key =
     (if last_touch ops key > 0 then Suc (last_touch ops key)
      else if touched_key (snd tp) = Some key then 1 else 0)"

text \<open>
  The two containers describe the same set of keys, each key once: what the iterators
  stored in the entries maintain in the source.
\<close>

definition cache_keys :: "('k, 'v) LRUCache \<Rightarrow> 'k list" where
  "cache_keys c = map fst (cache_map c)"

definition cache_inv :: "('k, 'v) LRUCache \<Rightarrow> bool" where
  "cache_inv c \<longleftrightarrow>
     distinct (lru_list c) \<and> distinct (cache_keys c) \<and> set (lru_list c) = set (cache_keys c)"

text \<open>A key list in which every key was touched later than the keys behind it.\<close>

definition recency_sorted :: "('k \<Rightarrow> nat) \<Rightarrow> 'k list \<Rightarrow> bool" where
  "recency_sorted st l = sorted_wrt (\<lambda>a b. st a > st b) l"

text \<open>A short history on a cache of capacity 2, used to instantiate the results below.\<close>

definition demo_history :: "(int \<times> (string, string) cache_op) list" where
  "demo_history = [(0, Put ''tv1'' ''a''), (1, Put ''tv2'' ''b''), (2, Get ''tv1'')]"

definition demo_cache :: "(string, string) LRUCache" where
  "demo_cache =
     \<lparr>max_size = 2, ttl = 3600, lru_list = [''tv1'', ''tv2''],
      cache_map = [(''tv2'', \<lparr>entry_value = ''b'', expiry_time = 3600000000001\<rparr>),
                   (''tv1'', \<lparr>entry_value = ''a'', expiry_time = 3600000000000\<rparr>)]\<rparr>"

section \<open>BackgroundLogger: include/utils/BackgroundLogger.h\<close>

text \<open>
  A \<open>LogTask\<close> is a callable without arguments. The model gives each task a label and
  records whether running it throws; the worker's \<open>try\<close>/\<open>catch\<close> turns a throw into the
  outcome \<open>Caught\<close>.

  The logger is shared by the threads that call \<open>enqueue\<close>, the thread that calls \<open>start\<close> and
  \<open>stop\<close>, and the worker thread. Its state changes in steps that the mutex and the atomics
  make indivisible; a run of the logger is a sequence of such steps in any interleaving:
  \<^item> \<open>Start\<close> and \<open>Enqueue\<close>: one call of \<open>start()\<close> or \<open>enqueue(task)\<close>;
  \<^item> \<open>WorkerStep\<close>: one turn of \<open>workerLoop\<close>: it pops and runs the task at the front of
    the queue; with an empty queue it waits while \<open>running\<close> is set and leaves the loop
    when it is cleared;
  \<^item> \<open>StopCall\<close>: a call of \<open>stop()\<close> up to \<open>join()\<close>. When \<open>running\<close> is clear the call
    returns at once; otherwise it clears \<open>running\<close> and blocks in \<open>join()\<close>;
  \<^item> \<open>StopReturn\<close>: \<open>join()\<close> returns, which needs the worker to have left its loop, and
    with it the blocked \<open>stop()\<close>.

  The fields \<open>accepted\<close>, \<open>executed\<close> and \<open>accepted_before_stop\<close> are not in the source:
  they log the tasks for which \<open>enqueue\<close> returned true, the tasks the worker has run, and
  the number of tasks that had been accepted when the pending \<open>stop()\<close> was called.
  Counters of type \<open>size_t\<close> are natural numbers.
\<close>

record LogTask =
  task_id :: nat
  throws :: bool

datatype task_outcome = Completed | Caught

record BackgroundLogger =
  max_queue_size :: nat
  running :: bool
  dropped_count :: nat
  queue :: "LogTask list"
  worker_alive :: bool
  joining :: bool
  accepted :: "LogTask list"
  executed :: "(LogTask \<times> task_outcome) list"
  accepted_before_stop :: nat

definition new_BackgroundLogger :: "nat \<Rightarrow> BackgroundLogger" where
  "new_BackgroundLogger n =
     \<lparr>max_queue_size = n, running = False, dropped_count = 0, queue = [],
      worker_alive = False, joining = False, accepted = [], executed = [],
      accepted_before_stop = 0\<rparr>"

text \<open>
  \<open>start()\<close> returns at once on a running logger. Assigning a new thread while the old one
  is still being joined ends the process, so \<open>start\<close> has no successor state there.
\<close>

definition start :: "BackgroundLogger \<Rightarrow> BackgroundLogger option" where
  "start s =
     (if running s then Some s
      else if joining s \<or> worker_alive s then None
      else Some (s\<lparr>running := True, worker_alive := True\<rparr>))"

definition enqueue :: "LogTask \<Rightarrow> BackgroundLogger \<Rightarrow> bool \<times> BackgroundLogger" where
  "enqueue task s =
     (if length (queue s) \<ge> max_queue_size s
      then (False, s\<lparr>dropped_count := dropped_count s + 1\<rparr>)
      else (True, s\<lparr>queue := queue s @ [task], accepted := accepted s @ [task]\<rparr>))"

definition queueSize :: "BackgroundLogger \<Rightarrow> nat" where
  "queueSize s = length (queue s)"

definition droppedCount :: "BackgroundLogger \<Rightarrow> nat" where
  "droppedCount s = dropped_count s"

definition run_task :: "LogTask \<Rightarrow> task_outcome" where
  "run_task task = (if throws task then Caught else Completed)"

definition worker_step :: "BackgroundLogger \<Rightarrow> BackgroundLogger" where
  "worker_step s =
     (if \<not> worker_alive s then s
      else case queue s of
        task # rest \<Rightarrow> s\<lparr>queue := rest, executed := executed s @ [(task, run_task task)]\<rparr>
      | [] \<Rightarrow> if running s then s else s\<lparr>worker_alive := False\<rparr>)"

definition stop_call :: "BackgroundLogger \<Rightarrow> BackgroundLogger" where
  "stop_call s =
     (if \<not> running s then s
      else s\<lparr>running := False, joining := True, accepted_before_stop := length (accepted s)\<rparr>)"

definition stop_return :: "BackgroundLogger \<Rightarrow> BackgroundLogger option" where
  "stop_return s =
     (if joining s \<and> \<not> worker_alive s then Some (s\<lparr>joining := False\<rparr>) else None)"

datatype logger_event = Start | Enqueue LogTask | WorkerStep | StopCall | StopReturn

fun logger_step :: "logger_event \<Rightarrow> BackgroundLogger \<Rightarrow> BackgroundLogger option" where
  "logger_step Start s = start s"
| "logger_step (Enqueue task) s = Some (snd (enqueue task s))"
| "logger_step WorkerStep s = Some (worker_step s)"
| "logger_step StopCall s = Some (stop_call s)"
| "logger_step StopReturn s = stop_return s"

fun run_events :: "logger_event list \<Rightarrow> BackgroundLogger \<Rightarrow> BackgroundLogger option" where
  "run_events [] s = Some s"
| "run_events (e # es) s =
     (case logger_step e s of None \<Rightarrow> None | Some s' \<Rightarrow> run_events es s')"

text \<open>
  A call of \<open>stop()\<close> returns to its caller in two ways: at once, when the logger was not
  running at the call, or when \<open>join()\<close> returns.
\<close>

definition stop_returns :: "logger_event \<Rightarrow> BackgroundLogger \<Rightarrow> bool" where
  "stop_returns e s \<longleftrightarrow> (e = StopCall \<and> \<not> running s) \<or> (e = StopReturn \<and> stop_return s \<noteq> None)"

text \<open>
  The runs of the overflow scenario. After \<open>start()\<close> the worker takes \<open>j\<close> turns on the empty
  queue, in which it only waits; the tasks \<open>ts\<close> are enqueued while the worker takes no
  turn; then \<open>stop()\<close> is called and the events \<open>post\<close> happen, any number of worker turns
  and of further calls of \<open>stop()\<close> in any order; at the end \<open>join()\<close> returns, and with it
  the first call of \<open>stop()\<close>. A run in which \<open>join()\<close> would return while the worker is
  still in its loop is no run of the program: \<open>run_events\<close> has no result for it.
\<close>

definition overflow_schedule :: "nat \<Rightarrow> LogTask list \<Rightarrow> logger_event list \<Rightarrow> logger_event list" where
  "overflow_schedule j ts post =
     [Start] @ replicate j WorkerStep @ map Enqueue ts @ [StopCall] @ post @ [StopReturn]"

definition turns_and_stops :: "logger_event list \<Rightarrow> bool" where
  "turns_and_stops es \<longleftrightarrow> list_all (\<lambda>e. e = WorkerStep \<or> e = StopCall) es"

definition worker_turns :: "logger_event list \<Rightarrow> nat" where
  "worker_turns es = length (filter (\<lambda>e. e = WorkerStep) es)"

definition numbered_tasks :: "nat \<Rightarrow> LogTask list" where
  "numbered_tasks n = map (\<lambda>i. \<lparr>task_id = i, throws = False\<rparr>) [0..<n]"

text \<open>What every reachable state of the logger satisfies.\<close>

definition logger_inv :: "BackgroundLogger \<Rightarrow> bool" where
  "logger_inv s \<longleftrightarrow>
     accepted s = map fst (executed s) @ queue s \<and>
     accepted_before_stop s \<le> length (accepted s) \<and>
     (running s \<longrightarrow> worker_alive s) \<and>
     (joining s \<and> \<not> worker_alive s \<longrightarrow> accepted_before_stop s \<le> length (executed s))"

text \<open>
  A run in which the first of two tasks throws: both are accepted, \<open>stop()\<close> is called, and
  the worker takes three turns.
\<close>

definition drain_run :: "logger_event list" where
  "drain_run =
     [Start, Enqueue \<lparr>task_id = 0, throws = True\<rparr>, Enqueue \<lparr>task_id = 1, throws = False\<rparr>,
      StopCall, WorkerStep, WorkerStep, WorkerStep]"

section \<open>LightningClient: src/clients/LightningClient.cpp\<close>

text \<open>
  JSON values are those of the jsoncpp library, which is not part of the repository; the
  model follows the library's documented behaviour for the four operations the sources
  use. A \<open>Json::Value\<close> is null, a string, a number or boolean (\<open>JScalar\<close>, given by its
  string rendering), an array or an object. \<open>isMember\<close> and \<open>operator[]\<close> with a member name
  need an object or null and raise \<open>Json::LogicError\<close> on any other value; on null, or for
  a name the object does not have, \<open>isMember\<close> is false and \<open>operator[]\<close> gives null.
  \<open>asString\<close> renders null as the empty string and raises on an array or an object.

  The network is a parameter: \<open>device\<close> answers each request with what \<open>curl_easy_perform\<close>
  and \<open>curl_easy_getinfo\<close> report for it, and may look at everything that happened before.
  \<open>http_code\<close> is \<open>CURLINFO_RESPONSE_CODE\<close>, which is 0 when no response was received; status
  codes have three digits, so the conversion from \<open>long\<close> to \<open>int\<close> keeps their value.
  \<open>parsed_body\<close> is what \<open>parseJsonResponse\<close> makes of the body, a value of any JSON type.
  \<open>curl_init_ok\<close> tells whether \<open>curl_easy_init\<close> hands out a handle. Everything the program
  does to the outside (requests, pauses, writes to the device table) is appended to
  \<open>io_log\<close>; output to the console is not modelled.
\<close>

datatype json = JNull | JString string | JScalar string | JArray "json list"
  | JObject "(string \<times> json) list"

datatype json_error = LogicError

fun isMember :: "string \<Rightarrow> json \<Rightarrow> json_error + bool" where
  "isMember name JNull = Inr False"
| "isMember name (JObject ms) = Inr (map_of ms name \<noteq> None)"
| "isMember name (JString s) = Inl LogicError"
| "isMember name (JScalar s) = Inl LogicError"
| "isMember name (JArray vs) = Inl LogicError"

fun json_member :: "string \<Rightarrow> json \<Rightarrow> json_error + json" where
  "json_member name JNull = Inr JNull"
| "json_member name (JObject ms) = Inr (case map_of ms name of Some v \<Rightarrow> v | None \<Rightarrow> JNull)"
| "json_member name (JString s) = Inl LogicError"
| "json_member name (JScalar s) = Inl LogicError"
| "json_member name (JArray vs) = Inl LogicError"

fun asString :: "json \<Rightarrow> json_error + string" where
  "asString JNull = Inr []"
| "asString (JString s) = Inr s"
| "asString (JScalar s) = Inr s"
| "asString (JArray vs) = Inl LogicError"
| "asString (JObject ms) = Inl LogicError"

fun isString :: "json \<Rightarrow> bool" where
  "isString (JString s) = True"
| "isString j = False"

text \<open>\<open>member_asString name j\<close> is the source's \<open>j[name].asString()\<close>.\<close>

definition member_asString :: "string \<Rightarrow> json \<Rightarrow> json_error + string" where
  "member_asString name j = (case json_member name j of Inl e \<Rightarrow> Inl e | Inr v \<Rightarrow> asString v)"

record CommandResult =
  success :: bool
  status_code :: int
  response_time_ms :: int
  error :: "string option"
  response_body :: json

definition new_CommandResult :: CommandResult where
  "new_CommandResult =
     \<lparr>success = False, status_code = 0, response_time_ms = 0, error = None, response_body = JNull\<rparr>"

datatype http_method = HttpGet | HttpPost

record http_request =
  req_method :: http_method
  req_url :: string
  req_headers :: "string list"
  req_body :: "json option"
  req_timeout :: int

record curl_outcome =
  curl_ok :: bool
  curl_strerror :: string
  http_code :: int
  raw_body_empty :: bool
  parsed_body :: json
  elapsed_ms :: int

datatype io_event = Sent http_request | Slept nat | LastSeenUpdated string string

record io_state =
  device :: "io_event list \<Rightarrow> http_request \<Rightarrow> curl_outcome"
  curl_init_ok :: bool
  io_log :: "io_event list"

definition perform :: "http_request \<Rightarrow> io_state \<Rightarrow> curl_outcome \<times> io_state" where
  "perform rq io = (device io (io_log io) rq, io\<lparr>io_log := io_log io @ [Sent rq]\<rparr>)"

record LightningClient =
  ip_address :: string
  api_key :: string
  client_token :: string
  base_url :: string
  wake_url :: string
  curl :: bool

definition new_LightningClient :: "string \<Rightarrow> string \<Rightarrow> string \<Rightarrow> bool \<Rightarrow> LightningClient" where
  "new_LightningClient ip key token init_ok =
     \<lparr>ip_address = ip, api_key = key, client_token = token,
      base_url = ''https://'' @ ip @ '':8080'',
      wake_url = ''http://'' @ ip @ '':8009/apps/FireTVRemote'',
      curl = init_ok\<rparr>"

definition WAKE_TIMEOUT :: int where "WAKE_TIMEOUT = 5"
definition HEALTH_TIMEOUT :: int where "HEALTH_TIMEOUT = 2"
definition COMMAND_TIMEOUT :: int where "COMMAND_TIMEOUT = 10"

definition buildHeaders :: "bool \<Rightarrow> LightningClient \<Rightarrow> string list" where
  "buildHeaders include_token c =
     [''X-Api-Key: '' @ api_key c]
     @ (if include_token \<and> client_token c \<noteq> [] then [''X-Client-Token: '' @ client_token c] else [])
     @ [''Content-Type: application/json'']"

text \<open>
  \<open>executeGet\<close> and \<open>executePost\<close> end alike, from the measurement of the response time to
  the result they return; \<open>finish_request\<close> is that common part.
\<close>

definition finish_request :: "curl_outcome \<Rightarrow> CommandResult" where
  "finish_request out =
     (let result = new_CommandResult\<lparr>response_time_ms := elapsed_ms out, status_code := http_code out\<rparr>
      in if \<not> curl_ok out
         then result\<lparr>error := Some (curl_strerror out), success := False\<rparr>
         else result\<lparr>response_body := (if \<not> raw_body_empty out then parsed_body out else JNull),
                     success := (http_code out \<ge> 200 \<and> http_code out < 300)\<rparr>)"

definition executeGet :: "string \<Rightarrow> int \<Rightarrow> LightningClient \<Rightarrow> io_state \<Rightarrow> CommandResult \<times> io_state" where
  "executeGet url timeout_seconds c io =
     (if \<not> curl c then (new_CommandResult\<lparr>error := Some ''CURL not initialized''\<rparr>, io)
      else let (out, io') =
                 perform \<lparr>req_method = HttpGet, req_url = url, req_headers = buildHeaders True c,
                          req_body = None, req_timeout = timeout_seconds\<rparr> io
           in (finish_request out, io'))"

definition executePost :: "string \<Rightarrow> json option \<Rightarrow> int \<Rightarrow> bool \<Rightarrow> LightningClient \<Rightarrow> io_state
    \<Rightarrow> CommandResult \<times> io_state" where
  "executePost url json_body timeout_seconds include_token c io =
     (if \<not> curl c then (new_CommandResult\<lparr>error := Some ''CURL not initialized''\<rparr>, io)
      else let (out, io') =
                 perform \<lparr>req_method = HttpPost, req_url = url,
                          req_headers = buildHeaders include_token c,
                          req_body = json_body, req_timeout = timeout_seconds\<rparr> io
           in (finish_request out, io'))"

definition wakeDevice :: "LightningClient \<Rightarrow> io_state \<Rightarrow> bool \<times> io_state" where
  "wakeDevice c io =
     (let (result, io') = executePost (wake_url c) None WAKE_TIMEOUT False c io
      in (status_code result = 200 \<or> status_code result = 201 \<or> status_code result = 204, io'))"

text \<open>
  \<open>displayPin\<close> and \<open>verifyPin\<close> have no handler for the errors of the JSON library: an error
  raised while the response is read leaves the function (\<open>Inl\<close>).
\<close>

definition displayPin :: "string \<Rightarrow> LightningClient \<Rightarrow> io_state \<Rightarrow> (json_error + string) \<times> io_state" where
  "displayPin friendly_name c io =
     (let (result, io') =
            executePost (base_url c @ ''/v1/FireTV/pin/display'')
              (Some (JObject [(''friendlyName'', JString friendly_name)])) COMMAND_TIMEOUT False c io
      in if success result \<and> status_code result = 200
         then (case isMember ''description'' (response_body result) of
                 Inl e \<Rightarrow> (Inl e, io')
               | Inr has_description \<Rightarrow>
                   if has_description
                   then (member_asString ''description'' (response_body result), io')
                   else (Inr [], io'))
         else (Inr [], io'))"

definition verifyPin :: "string \<Rightarrow> LightningClient \<Rightarrow> io_state
    \<Rightarrow> (json_error + string) \<times> LightningClient \<times> io_state" where
  "verifyPin pin c io =
     (let (result, io') =
            executePost (base_url c @ ''/v1/FireTV/pin/verify'')
              (Some (JObject [(''pin'', JString pin)])) COMMAND_TIMEOUT False c io
      in if success result \<and> status_code result = 200
         then (case isMember ''description'' (response_body result) of
                 Inl e \<Rightarrow> (Inl e, c, io')
               | Inr has_description \<Rightarrow>
                   if has_description
                   then (case member_asString ''description'' (response_body result) of
                           Inl e \<Rightarrow> (Inl e, c, io')
                         | Inr token \<Rightarrow>
                             if token \<noteq> [] \<and> token \<noteq> ''OK''
                             then (Inr token, c\<lparr>client_token := token\<rparr>, io')
                             else (Inr [], c, io'))
                   else (Inr [], c, io'))
         else (Inr [], c, io'))"

definition setClientToken :: "string \<Rightarrow> LightningClient \<Rightarrow> LightningClient" where
  "setClientToken token c = c\<lparr>client_token := token\<rparr>"

definition getClientToken :: "LightningClient \<Rightarrow> string" where
  "getClientToken c = client_token c"

definition sendMediaCommand :: "string \<Rightarrow> string \<Rightarrow> LightningClient \<Rightarrow> io_state
    \<Rightarrow> CommandResult \<times> io_state" where
  "sendMediaCommand action direction c io =
     (let url = base_url c @ ''/v1/media?action='' @ action;
          url' = (if action = ''scan'' \<and> direction \<noteq> [] then url @ ''&direction='' @ direction else url)
      in executePost url' None COMMAND_TIMEOUT True c io)"

definition play :: "LightningClient \<Rightarrow> io_state \<Rightarrow> CommandResult \<times> io_state" where
  "play = sendMediaCommand ''play'' []"

definition pause :: "LightningClient \<Rightarrow> io_state \<Rightarrow> CommandResult \<times> io_state" where
  "pause = sendMediaCommand ''pause'' []"

definition scanForward :: "LightningClient \<Rightarrow> io_state \<Rightarrow> CommandResult \<times> io_state" where
  "scanForward = sendMediaCommand ''scan'' ''forward''"

definition scanBackward :: "LightningClient \<Rightarrow> io_state \<Rightarrow> CommandResult \<times> io_state" where
  "scanBackward = sendMediaCommand ''scan'' ''back''"

definition sendNavigationCommand :: "string \<Rightarrow> LightningClient \<Rightarrow> io_state
    \<Rightarrow> CommandResult \<times> io_state" where
  "sendNavigationCommand action c io =
     executePost (base_url c @ ''/v1/FireTV?action='' @ action) None COMMAND_TIMEOUT True c io"

definition dpadUp :: "LightningClient \<Rightarrow> io_state \<Rightarrow> CommandResult \<times> io_state" where
  "dpadUp = sendNavigationCommand ''dpad_up''"

definition dpadDown :: "LightningClient \<Rightarrow> io_state \<Rightarrow> CommandResult \<times> io_state" where
  "dpadDown = sendNavigationCommand ''dpad_down''"

definition dpadLeft :: "LightningClient \<Rightarrow> io_state \<Rightarrow> CommandResult \<times> io_state" where
  "dpadLeft = sendNavigationCommand ''dpad_left''"

definition dpadRight :: "LightningClient \<Rightarrow> io_state \<Rightarrow> CommandResult \<times> io_state" where
  "dpadRight = sendNavigationCommand ''dpad_right''"

definition select :: "LightningClient \<Rightarrow> io_state \<Rightarrow> CommandResult \<times> io_state" where
  "select = sendNavigationCommand ''select''"

definition home :: "LightningClient \<Rightarrow> io_state \<Rightarrow> CommandResult \<times> io_state" where
  "home = sendNavigationCommand ''home''"

definition back_button :: "LightningClient \<Rightarrow> io_state \<Rightarrow> CommandResult \<times> io_state" where
  "back_button = sendNavigationCommand ''back''"

definition menu :: "LightningClient \<Rightarrow> io_state \<Rightarrow> CommandResult \<times> io_state" where
  "menu = sendNavigationCommand ''menu''"

definition sleep :: "LightningClient \<Rightarrow> io_state \<Rightarrow> CommandResult \<times> io_state" where
  "sleep = sendNavigationCommand ''sleep''"

definition launchApp :: "string \<Rightarrow> LightningClient \<Rightarrow> io_state \<Rightarrow> CommandResult \<times> io_state" where
  "launchApp package_name c io =
     executePost (base_url c @ ''/v1/FireTV/app/'' @ package_name) None COMMAND_TIMEOUT True c io"

definition sendKeyboardInput :: "string \<Rightarrow> LightningClient \<Rightarrow> io_state \<Rightarrow> CommandResult \<times> io_state" where
  "sendKeyboardInput text c io =
     executePost (base_url c @ ''/v1/FireTV/keyboard'') (Some (JObject [(''text'', JString text)]))
       COMMAND_TIMEOUT True c io"

definition isLightningApiAvailable :: "LightningClient \<Rightarrow> io_state \<Rightarrow> bool \<times> io_state" where
  "isLightningApiAvailable c io =
     (let (result, io') = executeGet (base_url c @ ''/v1/FireTV'') HEALTH_TIMEOUT c io
      in (status_code result > 0, io'))"

definition healthCheck :: "LightningClient \<Rightarrow> io_state \<Rightarrow> bool \<times> io_state" where
  "healthCheck c io =
     (let (result, io') = executeGet (wake_url c) HEALTH_TIMEOUT c io
      in (status_code result = 200 \<or> status_code result = 204 \<or> status_code result = 404, io'))"

text \<open>
  The request \<open>verifyPin\<close> sends and the device's answer to it, and the request of the
  availability check.
\<close>

definition verify_request :: "string \<Rightarrow> LightningClient \<Rightarrow> http_request" where
  "verify_request pin c =
     \<lparr>req_method = HttpPost, req_url = base_url c @ ''/v1/FireTV/pin/verify'',
      req_headers = buildHeaders False c, req_body = Some (JObject [(''pin'', JString pin)]),
      req_timeout = COMMAND_TIMEOUT\<rparr>"

definition verify_response :: "string \<Rightarrow> LightningClient \<Rightarrow> io_state \<Rightarrow> curl_outcome" where
  "verify_response pin c io = device io (io_log io) (verify_request pin c)"



text \<open>A device that answers every request with the given status and JSON body.\<close>

definition answering_device :: "int \<Rightarrow> json \<Rightarrow> io_event list \<Rightarrow> http_request \<Rightarrow> curl_outcome" where
  "answering_device code body past rq =
     \<lparr>curl_ok = True, curl_strerror = ''No error'', http_code = code,
      raw_body_empty = False, parsed_body = body, elapsed_ms = 12\<rparr>"

text \<open>The response body as \<open>finish_request\<close> hands it on: null when the body was empty.\<close>

definition response_json :: "curl_outcome \<Rightarrow> json" where
  "response_json out = (if raw_body_empty out then JNull else parsed_body out)"

text \<open>
  \<open>description_readable body\<close>: the body is null, or an object whose \<open>description\<close>, if present,
  is null, a string, a number or a boolean. On such a body none of the JSON operations of
  \<open>displayPin\<close> and \<open>verifyPin\<close> raises.
\<close>

definition description_readable :: "json \<Rightarrow> bool" where
  "description_readable body \<longleftrightarrow>
     (case body of
        JNull \<Rightarrow> True
      | JObject ms \<Rightarrow>
          (case map_of ms ''description'' of
             None \<Rightarrow> True | Some JNull \<Rightarrow> True | Some (JString s) \<Rightarrow> True
           | Some (JScalar s) \<Rightarrow> True | Some (JArray vs) \<Rightarrow> False | Some (JObject ns) \<Rightarrow> False)
      | JString s \<Rightarrow> False | JScalar s \<Rightarrow> False | JArray vs \<Rightarrow> False)"

section \<open>CommandHandler: src/mqtt/CommandHandler.cpp\<close>

text \<open>
  Of a \<open>Device\<close> row the handler reads the address, the API key and the optional token
  (the fields carry the prefix \<open>device_\<close> here, apart from \<open>device_id\<close>). The device table is
  the parameter \<open>repo\<close>, standing for \<open>DeviceRepository::getDeviceById\<close>. \<open>clients\<close> and
  \<open>app_packages\<close> are \<open>std::map\<close>s; \<open>app_packages\<close> is listed in key order, the order in
  which the source iterates over it.
\<close>

record Device =
  device_id :: string
  device_ip_address :: string
  device_api_key :: string
  device_client_token :: "string option"

record CommandHandler =
  clients :: "(string \<times> LightningClient) list"
  app_packages :: "(string \<times> string) list"

definition new_CommandHandler :: CommandHandler where
  "new_CommandHandler =
     \<lparr>clients = [],
      app_packages =
        [(''Disney+'', ''com.disney.disneyplus''),
         (''HBO Max'', ''com.hbo.hbonow''),
         (''Hulu'', ''com.hulu.plus''),
         (''Netflix'', ''com.netflix.ninja''),
         (''Plex'', ''com.plexapp.android''),
         (''Prime Video'', ''com.amazon.avod.thirdpartyclient''),
         (''Spotify'', ''com.spotify.tv.android''),
         (''YouTube'', ''com.google.android.youtube.tv'')]\<rparr>"

definition starts_with :: "string \<Rightarrow> string \<Rightarrow> bool" where
  "starts_with p s \<longleftrightarrow> take (length p) s = p"

definition tolower :: "char \<Rightarrow> char" where
  "tolower ch =
     (let n = (of_char ch :: nat) in if 65 \<le> n \<and> n \<le> 90 then char_of (n + 32) else ch)"

definition getClientForDevice :: "string \<Rightarrow> (string \<Rightarrow> Device option) \<Rightarrow> CommandHandler \<Rightarrow> io_state
    \<Rightarrow> LightningClient option \<times> CommandHandler" where
  "getClientForDevice dev_id repo h io =
     (case map_of (clients h) dev_id of
        Some client \<Rightarrow> (Some client, h)
      | None \<Rightarrow>
          (case repo dev_id of
             None \<Rightarrow> (None, h)
           | Some d \<Rightarrow>
               (let client =
                      new_LightningClient (device_ip_address d) (device_api_key d)
                        (case device_client_token d of Some t \<Rightarrow> t | None \<Rightarrow> [])
                        (curl_init_ok io)
                in (Some client, h\<lparr>clients := AList.update dev_id client (clients h)\<rparr>))))"

definition handleMediaCommand :: "LightningClient \<Rightarrow> string \<Rightarrow> io_state \<Rightarrow> io_state" where
  "handleMediaCommand client command io =
     (if command = ''media_play_pause'' \<or> command = ''media_play'' then snd (play client io)
      else if command = ''media_pause'' then snd (pause client io)
      else if command = ''media_stop'' then snd (pause client io)
      else if command = ''media_next_track'' then snd (scanForward client io)
      else if command = ''media_previous_track'' then snd (scanBackward client io)
      else io)"

definition handleVolumeCommand :: "LightningClient \<Rightarrow> string \<Rightarrow> io_state \<Rightarrow> io_state" where
  "handleVolumeCommand client command io =
     (if command = ''volume_up'' then snd (sendNavigationCommand ''volume_up'' client io)
      else if command = ''volume_down'' then snd (sendNavigationCommand ''volume_down'' client io)
      else if command = ''volume_mute'' then snd (sendNavigationCommand ''volume_mute'' client io)
      else io)"

text \<open>
  The handlers that read the payload have no handler for the errors of the JSON library
  either. They read the payload before they call the client, so an error leaves them
  (\<open>Inl\<close>) with nothing sent.
\<close>

definition handleNavigationCommand :: "LightningClient \<Rightarrow> json \<Rightarrow> io_state \<Rightarrow> json_error + io_state" where
  "handleNavigationCommand client payload io =
     (case isMember ''direction'' payload of
        Inl e \<Rightarrow> Inl e
      | Inr has_direction \<Rightarrow>
          if has_direction then
            (case member_asString ''direction'' payload of
               Inl e \<Rightarrow> Inl e
             | Inr direction \<Rightarrow>
                 Inr (if direction = ''up'' then snd (dpadUp client io)
                      else if direction = ''down'' then snd (dpadDown client io)
                      else if direction = ''left'' then snd (dpadLeft client io)
                      else if direction = ''right'' then snd (dpadRight client io)
                      else io))
          else
            (case isMember ''action'' payload of
               Inl e \<Rightarrow> Inl e
             | Inr has_action \<Rightarrow>
                 if has_action then
                   (case member_asString ''action'' payload of
                      Inl e \<Rightarrow> Inl e
                    | Inr action \<Rightarrow>
                        Inr (if action = ''select'' then snd (select client io)
                             else if action = ''home'' then snd (home client io)
                             else if action = ''back'' then snd (back_button client io)
                             else if action = ''menu'' then snd (menu client io)
                             else io))
                 else Inr io))"

definition handlePowerCommand :: "LightningClient \<Rightarrow> string \<Rightarrow> io_state \<Rightarrow> io_state" where
  "handlePowerCommand client command io =
     (if command = ''turn_on'' then
        (let (woke, io') = wakeDevice client io
         in if woke then io'\<lparr>io_log := io_log io' @ [Slept 3]\<rparr> else io')
      else if command = ''turn_off'' then snd (sleep client io)
      else io)"

definition getPackageForApp :: "string \<Rightarrow> CommandHandler \<Rightarrow> string" where
  "getPackageForApp app_name h =
     (case map_of (app_packages h) app_name of
        Some package \<Rightarrow> package
      | None \<Rightarrow>
          (case find (\<lambda>pair. map tolower app_name = map tolower (fst pair)) (app_packages h) of
             Some pair \<Rightarrow> snd pair
           | None \<Rightarrow> []))"

definition handleAppLaunchCommand :: "CommandHandler \<Rightarrow> LightningClient \<Rightarrow> json \<Rightarrow> io_state
    \<Rightarrow> json_error + io_state" where
  "handleAppLaunchCommand h client payload io =
     (case isMember ''package'' payload of
        Inl e \<Rightarrow> Inl e
      | Inr has_package \<Rightarrow>
          if has_package then
            (case member_asString ''package'' payload of
               Inl e \<Rightarrow> Inl e
             | Inr package \<Rightarrow> Inr (snd (launchApp package client io)))
          else
            (case isMember ''source'' payload of
               Inl e \<Rightarrow> Inl e
             | Inr has_source \<Rightarrow>
                 if has_source then
                   (case member_asString ''source'' payload of
                      Inl e \<Rightarrow> Inl e
                    | Inr app_name \<Rightarrow>
                        (let package = getPackageForApp app_name h
                         in Inr (if package = [] then io else snd (launchApp package client io))))
                 else Inr io))"

definition send_text :: "LightningClient \<Rightarrow> string \<Rightarrow> io_state \<Rightarrow> io_state" where
  "send_text client text io = (if text = [] then io else snd (sendKeyboardInput text client io))"

definition handleTextInputCommand :: "LightningClient \<Rightarrow> json \<Rightarrow> io_state \<Rightarrow> json_error + io_state" where
  "handleTextInputCommand client payload io =
     (case isMember ''text'' payload of
        Inl e \<Rightarrow> Inl e
      | Inr has_text \<Rightarrow>
          if has_text then
            (case member_asString ''text'' payload of
               Inl e \<Rightarrow> Inl e
             | Inr text \<Rightarrow> Inr (send_text client text io))
          else if isString payload then
            (case asString payload of
               Inl e \<Rightarrow> Inl e
             | Inr text \<Rightarrow> Inr (send_text client text io))
          else Inr io)"

text \<open>
  \<open>handleCommand\<close> returns nothing; the model returns whether an error of the JSON library
  left it (\<open>Some\<close>), the handler with its client cache, and the outside world. An error
  skips the rest of the function, the update of the device's last-seen time included.
\<close>

definition route_command :: "string \<Rightarrow> json \<Rightarrow> CommandHandler \<Rightarrow> LightningClient \<Rightarrow> io_state
    \<Rightarrow> json_error + io_state" where
  "route_command command payload h client io =
     (if starts_with ''media_'' command then Inr (handleMediaCommand client command io)
      else if starts_with ''volume_'' command then Inr (handleVolumeCommand client command io)
      else if command = ''turn_on'' \<or> command = ''turn_off''
        then Inr (handlePowerCommand client command io)
      else if command = ''navigate'' then handleNavigationCommand client payload io
      else if command = ''select_source'' \<or> command = ''launch_app''
        then handleAppLaunchCommand h client payload io
      else if command = ''send_text'' \<or> command = ''keyboard_input''
        then handleTextInputCommand client payload io
      else Inr io)"

definition handleCommand :: "string \<Rightarrow> json \<Rightarrow> (string \<Rightarrow> Device option) \<Rightarrow> CommandHandler \<Rightarrow> io_state
    \<Rightarrow> json_error option \<times> CommandHandler \<times> io_state" where
  "handleCommand dev_id payload repo h io =
     (case isMember ''command'' payload of
        Inl e \<Rightarrow> (Some e, h, io)
      | Inr has_command \<Rightarrow>
          if \<not> has_command then (None, h, io)
          else
            (case member_asString ''command'' payload of
               Inl e \<Rightarrow> (Some e, h, io)
             | Inr command \<Rightarrow>
                 (let (client_opt, h') = getClientForDevice dev_id repo h io
                  in case client_opt of
                       None \<Rightarrow> (None, h', io)
                     | Some client \<Rightarrow>
                         (case route_command command payload h' client io of
                            Inl e \<Rightarrow> (Some e, h', io)
                          | Inr io1 \<Rightarrow>
                              (None, h',
                               io1\<lparr>io_log := io_log io1 @ [LastSeenUpdated dev_id ''online'']\<rparr>)))))"

text \<open>
  A device that does not answer: every request ends without a response, as a request to an
  address nobody listens on does. And a device table with one unpaired device.
\<close>

definition unreachable_device :: "io_event list \<Rightarrow> http_request \<Rightarrow> curl_outcome" where
  "unreachable_device past rq =
     \<lparr>curl_ok = False, curl_strerror = ''Timeout was reached'', http_code = 0,
      raw_body_empty = True, parsed_body = JNull, elapsed_ms = 1000 * req_timeout rq\<rparr>"

definition one_device_repo :: "string \<Rightarrow> Device option" where
  "one_device_repo dev_id =
     (if dev_id = ''living_room''
      then Some \<lparr>device_id = ''living_room'', device_ip_address = ''192.168.1.250'',
                 device_api_key = ''0987654321'', device_client_token = None\<rparr>
      else None)"

definition asleep_io :: io_state where
  "asleep_io = \<lparr>device = unreachable_device, curl_init_ok = True, io_log = []\<rparr>"

definition living_room_client :: LightningClient where
  "living_room_client = new_LightningClient ''192.168.1.250'' ''0987654321'' [] True"

text \<open>
  The requests of the availability check are the \<open>GET\<close> requests of the log: every other
  call of the client posts.
\<close>

fun is_get :: "io_event \<Rightarrow> bool" where
  "is_get (Sent rq) = (req_method rq = HttpGet)"
| "is_get (Slept n) = False"
| "is_get (LastSeenUpdated d st) = False"

definition gets_of :: "io_state \<Rightarrow> io_event list" where
  "gets_of io = filter is_get (io_log io)"

section \<open>ConnectionPool: include/services/ConnectionPool.h\<close>

text \<open>
  A connection of the database library is known to the pool by whether it is open; the
  model gives it a label as well, to tell connections apart. The queue
  \<open>available_connections\<close> holds owning pointers, which may be null (\<open>None\<close>). The member
  \<open>shutdown_\<close> is the field \<open>shutdown_flag\<close>, the member function is \<open>shutdown\<close>.

  Opening a connection is a parameter: \<open>attempt i\<close> is the outcome of the \<open>i\<close>-th attempt of
  the constructor and \<open>reconnect\<close> the outcome of the attempt in \<open>acquire\<close>, \<open>None\<close> when the
  library raises.
\<close>

record Connection =
  conn_id :: nat
  is_open :: bool

record ConnectionPool =
  connection_string :: string
  pool_size :: nat
  max_wait_ms :: int
  shutdown_flag :: bool
  available_connections :: "Connection option list"

definition new_ConnectionPool :: "string \<Rightarrow> nat \<Rightarrow> int \<Rightarrow> (nat \<Rightarrow> Connection option) \<Rightarrow> ConnectionPool" where
  "new_ConnectionPool cs n wait_ms attempt =
     \<lparr>connection_string = cs, pool_size = n, max_wait_ms = wait_ms, shutdown_flag = False,
      available_connections =
        concat (map (\<lambda>i. case attempt i of
                            Some c \<Rightarrow> if is_open c then [Some c] else []
                          | None \<Rightarrow> []) [0..<n])\<rparr>"














section \<open>Properties of LRUCache\<close>

subsection \<open>Entries seen through \<open>find_entry\<close>\<close>

lemma find_entry_lru_list_update [simp]: "find_entry k (c\<lparr>lru_list := l\<rparr>) = find_entry k c"
  by (simp add: find_entry_def)

lemma find_entry_put_same:
  "find_entry key (put key v now c) = Some \<lparr>entry_value = v, expiry_time = now + ttl c * ticks_per_second\<rparr>"
  by (auto simp: put_def find_entry_def emplace_def Let_def evictLRU_def update_conv' delete_conv' split: option.splits)

lemma find_entry_evict: "find_entry k (evict key c) = (if k = key then None else find_entry k c)"
  by (auto simp: evict_def find_entry_def delete_conv' split: option.splits)

lemma find_entry_put_other:
  "k \<noteq> key \<Longrightarrow> find_entry k (put key v now c) = None \<or> find_entry k (put key v now c) = find_entry k c"
  by (auto simp: put_def find_entry_def emplace_def Let_def evictLRU_def update_conv' delete_conv' split: option.splits)

lemma find_entry_get:
  "find_entry k (snd (get key now c)) = None \<or> find_entry k (snd (get key now c)) = find_entry k c"
  by (auto simp: get_def find_entry_evict split: option.splits)

lemma cleanup_loop_Some: "cleanup_loop now ks rc = Some rc' \<Longrightarrow> rc' = rc"
proof (induction ks arbitrary: rc)
  case Nil
  then show ?case by simp
next
  case (Cons key ks)
  obtain r c where rc: "rc = (r, c)" by (cases rc)
  from Cons.prems have "cleanup_loop now ks (r, c) = Some rc'"
    by (auto simp: rc split: option.splits if_splits)
  from Cons.IH[OF this] show ?case by (simp add: rc)
qed

lemma apply_op_Some:
  assumes "apply_op tp c = Some c'"
  shows "c' = (case snd tp of
                 Get k \<Rightarrow> snd (get k (fst tp) c)
               | Put k v \<Rightarrow> put k v (fst tp) c
               | Remove k \<Rightarrow> remove k c
               | CleanupExpired \<Rightarrow> c)"
proof (cases tp)
  case (Pair now op)
  show ?thesis
  proof (cases op)
    case CleanupExpired
    with assms Pair obtain r where "cleanup_loop now (rev (lru_list c)) (0, c) = Some (r, c')"
      by (auto simp: cleanupExpired_def)
    from cleanup_loop_Some[OF this] show ?thesis by (simp add: Pair CleanupExpired)
  qed (use assms Pair in auto)
qed

lemma run_ops_snoc:
  "run_ops (ops @ [tp]) c = (case run_ops ops c of None \<Rightarrow> None | Some c1 \<Rightarrow> apply_op tp c1)"
  by (induction ops arbitrary: c) (auto split: option.splits)

lemma run_ops_no_sweep: "no_sweep ops \<Longrightarrow> \<exists>c'. run_ops ops c = Some c'"
proof (induction ops arbitrary: c)
  case Nil
  then show ?case by simp
next
  case (Cons tp ops)
  obtain now op where tp: "tp = (now, op)" by (cases tp)
  from Cons.prems have ne: "op \<noteq> CleanupExpired" and r: "no_sweep ops"
    by (simp_all add: no_sweep_def tp)
  from ne obtain c1 where "apply_op tp c = Some c1" by (cases op) (simp_all add: tp)
  with Cons.IH[OF r, of c1] show ?case by simp
qed

lemma find_entry_apply_op:
  assumes "case snd tp of Put k v \<Rightarrow> k \<noteq> key | _ \<Rightarrow> True" and "apply_op tp c = Some c'"
  shows "find_entry key c' = None \<or> find_entry key c' = find_entry key c"
proof (cases tp)
  case (Pair now op)
  note c' = apply_op_Some[OF assms(2)]
  show ?thesis
  proof (cases op)
    case (Get k)
    then show ?thesis using c' find_entry_get[of key k now c] by (simp add: Pair)
  next
    case (Put k v)
    then show ?thesis using c' assms(1) find_entry_put_other[of key k v now c] by (simp add: Pair)
  next
    case (Remove k)
    then show ?thesis using c' by (simp add: Pair remove_def find_entry_evict)
  next
    case CleanupExpired
    then show ?thesis using c' by (simp add: Pair)
  qed
qed

lemma find_entry_run_ops:
  "no_put_of key ops \<Longrightarrow> run_ops ops c = Some c' \<Longrightarrow>
   find_entry key c' = None \<or> find_entry key c' = find_entry key c"
proof (induction ops arbitrary: c)
  case Nil
  then show ?case by simp
next
  case (Cons tp ops)
  from Cons.prems(1) have h: "case snd tp of Put k v \<Rightarrow> k \<noteq> key | _ \<Rightarrow> True" and r: "no_put_of key ops"
    by (auto simp: no_put_of_def split: prod.splits)
  from Cons.prems(2) obtain c1 where s1: "apply_op tp c = Some c1" and r1: "run_ops ops c1 = Some c'"
    by (auto split: option.splits)
  from Cons.IH[OF r r1] find_entry_apply_op[OF h s1]
  show ?case by auto
qed

text \<open>
  C4. An entry put at time \<open>now\<close> carries the expiry \<open>now + ttl\<close>. Whatever operations the
  cache goes through afterwards (lookups, removals, puts of other keys, with or without a
  sweep by \<open>cleanupExpired\<close>), as long as the key is not put again, a \<open>get\<close> of the key at a
  time strictly later than \<open>now + ttl\<close> returns absent. When no sweep has run since the
  insertion, the operations in between always have a result, and the \<open>get\<close> returns absent.
\<close>

theorem get_after_ttl_absent:
  assumes "no_put_of key ops" and "now' > now + ttl c * ticks_per_second"
  shows "(\<forall>c'. run_ops ops (put key v now c) = Some c' \<longrightarrow> fst (get key now' c') = None)
       \<and> (no_sweep ops \<longrightarrow>
            (\<exists>c'. run_ops ops (put key v now c) = Some c' \<and> fst (get key now' c') = None))"
proof -
  have absent: "fst (get key now' c') = None" if r: "run_ops ops (put key v now c) = Some c'" for c'
  proof -
    from find_entry_run_ops[OF assms(1) r]
    have "find_entry key c' = None \<or>
          find_entry key c' = Some \<lparr>entry_value = v, expiry_time = now + ttl c * ticks_per_second\<rparr>"
      by (simp add: find_entry_put_same)
    then show ?thesis using assms(2)
      by (auto simp: get_def isExpired_def)
  qed
  have "\<exists>c'. run_ops ops (put key v now c) = Some c' \<and> fst (get key now' c') = None"
    if "no_sweep ops"
  proof -
    from run_ops_no_sweep[OF that] obtain c' where "run_ops ops (put key v now c) = Some c'"
      by blast
    with absent show ?thesis by blast
  qed
  with absent show ?thesis by blast
qed

theorem get_after_ttl_absent_witness:
  "(\<exists>c'. run_ops [(5, Get ''tv1''), (7, Put ''tv2'' ''b''), (9, CleanupExpired), (20000000000, Get ''tv2'')]
            (put ''tv1'' ''a'' 0 (new_LRUCache 2 10)) = Some c'
      \<and> fst (get ''tv1'' 20000000001 c') = None)
   \<and> (\<exists>c'. run_ops [(5, Get ''tv1''), (7, Put ''tv2'' ''b'')]
            (put ''tv1'' ''a'' 0 (new_LRUCache 2 10)) = Some c'
      \<and> fst (get ''tv1'' 10000000001 c') = None)"
proof -
  let ?ops = "[(5, Get ''tv1''), (7, Put ''tv2'' ''b''), (9, CleanupExpired), (20000000000, Get ''tv2'')]
                :: (int \<times> (string, string) cache_op) list"
  let ?ops2 = "[(5, Get ''tv1''), (7, Put ''tv2'' ''b'')] :: (int \<times> (string, string) cache_op) list"
  let ?c = "new_LRUCache 2 10 :: (string, string) LRUCache"
  have h1: "no_put_of ''tv1'' ?ops" by (simp add: no_put_of_def)
  obtain c' where h2: "run_ops ?ops (put ''tv1'' ''a'' 0 ?c) = Some c'"
    by (simp add: put_def get_def find_entry_def new_LRUCache_def emplace_def isExpired_def
        ticks_per_second_def cleanupExpired_def evict_def)
  have h3: "(20000000001::int) > 0 + ttl ?c * ticks_per_second"
    by (simp add: new_LRUCache_def ticks_per_second_def)
  from get_after_ttl_absent[OF h1 h3, of "''a''"] h2
  have a: "\<exists>c'. run_ops ?ops (put ''tv1'' ''a'' 0 ?c) = Some c' \<and> fst (get ''tv1'' 20000000001 c') = None"
    by blast
  have g1: "no_put_of ''tv1'' ?ops2" by (simp add: no_put_of_def)
  have g2: "no_sweep ?ops2" by (simp add: no_sweep_def)
  have g3: "(10000000001::int) > 0 + ttl ?c * ticks_per_second"
    by (simp add: new_LRUCache_def ticks_per_second_def)
  from get_after_ttl_absent[OF g1 g3, of "''a''"] g2
  have b: "\<exists>c'. run_ops ?ops2 (put ''tv1'' ''a'' 0 ?c) = Some c' \<and> fst (get ''tv1'' 10000000001 c') = None"
    by blast
  from a b show ?thesis by blast
qed

subsection \<open>The two containers stay in step\<close>

lemma find_entry_None_iff: "find_entry k c = None \<longleftrightarrow> k \<notin> set (cache_keys c)"
  by (simp add: find_entry_def cache_keys_def map_of_eq_None_iff)

lemma cache_keys_lru_list_update [simp]: "cache_keys (c\<lparr>lru_list := l\<rparr>) = cache_keys c"
  by (simp add: cache_keys_def)

lemma cache_keys_evict: "cache_keys (evict key c) = removeAll key (cache_keys c)"
proof (cases "find_entry key c")
  case None
  then have "key \<notin> set (cache_keys c)" by (simp add: find_entry_None_iff)
  then show ?thesis using None by (simp add: evict_def)
next
  case (Some e)
  then show ?thesis by (simp add: evict_def cache_keys_def delete_keys)
qed

lemma lru_list_evict:
  "lru_list (evict key c) = (if key \<in> set (cache_keys c) then remove1 key (lru_list c) else lru_list c)"
  using find_entry_None_iff[of key c] by (auto simp: evict_def split: option.splits)

lemma cache_keys_evictLRU:
  "cache_keys (evictLRU c) = (if lru_list c = [] then cache_keys c else removeAll (last (lru_list c)) (cache_keys c))"
  by (simp add: evictLRU_def cache_keys_def delete_keys)

lemma lru_list_evictLRU: "lru_list (evictLRU c) = butlast (lru_list c)"
  by (simp add: evictLRU_def)

lemma set_butlast_distinct: "distinct xs \<Longrightarrow> xs \<noteq> [] \<Longrightarrow> set (butlast xs) = set xs - {last xs}"
  by (induction xs rule: rev_induct) auto

lemma cache_inv_new: "cache_inv (new_LRUCache n t)"
  by (simp add: cache_inv_def new_LRUCache_def cache_keys_def)

lemma cache_inv_evict: "cache_inv c \<Longrightarrow> cache_inv (evict key c)"
  by (auto simp: cache_inv_def cache_keys_evict lru_list_evict distinct_removeAll)

lemma cache_inv_evictLRU: "cache_inv c \<Longrightarrow> cache_inv (evictLRU c)"
  by (auto simp: cache_inv_def cache_keys_evictLRU lru_list_evictLRU distinct_removeAll distinct_butlast
      set_butlast_distinct)

lemma cache_inv_touch:
  "cache_inv c \<Longrightarrow> key \<in> set (cache_keys c) \<Longrightarrow> cache_inv (c\<lparr>lru_list := key # remove1 key (lru_list c)\<rparr>)"
  by (auto simp: cache_inv_def)

lemma cache_inv_get: "cache_inv c \<Longrightarrow> cache_inv (snd (get key now c))"
  using find_entry_None_iff[of key c]
  by (auto simp: get_def cache_inv_evict cache_inv_touch split: option.splits)

lemma cache_keys_put_hit:
  "find_entry key c = Some e \<Longrightarrow> cache_keys (put key v now c) = cache_keys c"
  using find_entry_None_iff[of key c]
  by (auto simp: put_def cache_keys_def update_keys)

lemma lru_list_put_hit:
  "find_entry key c = Some e \<Longrightarrow> lru_list (put key v now c) = key # remove1 key (lru_list c)"
  by (simp add: put_def)

lemma cache_keys_put_miss:
  "find_entry key c = None \<Longrightarrow>
   cache_keys (put key v now c) =
     key # cache_keys (if length (cache_map c) \<ge> max_size c then evictLRU c else c)"
proof -
  assume n: "find_entry key c = None"
  let ?c1 = "if length (cache_map c) \<ge> max_size c then evictLRU c else c"
  have "key \<notin> set (cache_keys ?c1)" using n find_entry_None_iff[of key c]
    by (auto simp: cache_keys_evictLRU)
  then have "map_of (cache_map ?c1) key = None" by (simp add: cache_keys_def map_of_eq_None_iff)
  then show ?thesis using n by (simp add: put_def Let_def emplace_def cache_keys_def)
qed

lemma lru_list_put_miss:
  "find_entry key c = None \<Longrightarrow>
   lru_list (put key v now c) =
     key # lru_list (if length (cache_map c) \<ge> max_size c then evictLRU c else c)"
  by (simp add: put_def Let_def)

lemma cache_inv_put: "cache_inv c \<Longrightarrow> cache_inv (put key v now c)"
proof (cases "find_entry key c")
  case None
  assume inv: "cache_inv c"
  let ?c1 = "if length (cache_map c) \<ge> max_size c then evictLRU c else c"
  have inv1: "cache_inv ?c1" using inv by (simp add: cache_inv_evictLRU)
  have "key \<notin> set (cache_keys ?c1)" using None find_entry_None_iff[of key c]
    by (auto simp: cache_keys_evictLRU)
  then show ?thesis using inv1 cache_keys_put_miss[OF None] lru_list_put_miss[OF None]
    by (simp add: cache_inv_def)
next
  case (Some e)
  assume inv: "cache_inv c"
  from Some have "key \<in> set (cache_keys c)" using find_entry_None_iff[of key c] by auto
  then show ?thesis using inv cache_keys_put_hit[OF Some] lru_list_put_hit[OF Some]
    by (auto simp: cache_inv_def)
qed

lemma cache_inv_apply_op: "cache_inv c \<Longrightarrow> apply_op tp c = Some c' \<Longrightarrow> cache_inv c'"
proof -
  assume inv: "cache_inv c" and st: "apply_op tp c = Some c'"
  obtain now op where tp: "tp = (now, op)" by (cases tp)
  from apply_op_Some[OF st] inv show ?thesis
    by (cases op) (simp_all add: tp cache_inv_get cache_inv_put remove_def cache_inv_evict)
qed

lemma cache_inv_run_ops: "cache_inv c \<Longrightarrow> run_ops ops c = Some c' \<Longrightarrow> cache_inv c'"
proof (induction ops arbitrary: c)
  case Nil
  then show ?case by simp
next
  case (Cons tp ops)
  from Cons.prems(2) obtain c1 where s1: "apply_op tp c = Some c1" and r1: "run_ops ops c1 = Some c'"
    by (auto split: option.splits)
  from Cons.IH[OF cache_inv_apply_op[OF Cons.prems(1) s1] r1] show ?case .
qed

subsection \<open>The number of entries\<close>

lemma max_size_evict [simp]: "max_size (evict key c) = max_size c"
  by (simp add: evict_def split: option.splits)

lemma max_size_evictLRU [simp]: "max_size (evictLRU c) = max_size c"
  by (simp add: evictLRU_def)

lemma max_size_get [simp]: "max_size (snd (get key now c)) = max_size c"
  by (simp add: get_def split: option.splits)

lemma max_size_put [simp]: "max_size (put key v now c) = max_size c"
  by (simp add: put_def Let_def split: option.splits)

lemma max_size_apply_op: "apply_op tp c = Some c' \<Longrightarrow> max_size c' = max_size c"
proof -
  assume st: "apply_op tp c = Some c'"
  obtain now op where tp: "tp = (now, op)" by (cases tp)
  from apply_op_Some[OF st] show ?thesis by (cases op) (simp_all add: tp remove_def)
qed

lemma max_size_run_ops: "run_ops ops c = Some c' \<Longrightarrow> max_size c' = max_size c"
proof (induction ops arbitrary: c)
  case Nil
  then show ?case by simp
next
  case (Cons tp ops)
  from Cons.prems obtain c1 where s1: "apply_op tp c = Some c1" and r1: "run_ops ops c1 = Some c'"
    by (auto split: option.splits)
  from Cons.IH[OF r1] max_size_apply_op[OF s1] show ?case by simp
qed

lemma cache_size_keys: "cache_size c = length (cache_keys c)"
  by (simp add: cache_size_def cache_keys_def)

lemma cache_size_lru: "cache_inv c \<Longrightarrow> cache_size c = length (lru_list c)"
  by (metis cache_inv_def cache_size_keys distinct_card)

lemma cache_size_evict_le: "cache_size (evict key c) \<le> cache_size c"
  by (simp add: cache_size_keys cache_keys_evict)

lemma cache_size_get_le: "cache_size (snd (get key now c)) \<le> cache_size c"
  by (auto simp: get_def cache_size_evict_le split: option.splits) (simp add: cache_size_keys)

lemma length_removeAll_distinct:
  "distinct xs \<Longrightarrow> x \<in> set xs \<Longrightarrow> length (removeAll x xs) = length xs - 1"
  by (simp add: distinct_remove1_removeAll[symmetric] length_remove1)

lemma cache_size_evictLRU:
  "cache_inv c \<Longrightarrow> lru_list c \<noteq> [] \<Longrightarrow> cache_size (evictLRU c) = cache_size c - 1"
proof -
  assume inv: "cache_inv c" and ne: "lru_list c \<noteq> []"
  then have "last (lru_list c) \<in> set (cache_keys c)"
    using last_in_set[OF ne] by (simp add: cache_inv_def)
  then show ?thesis using inv ne
    by (simp add: cache_size_keys cache_keys_evictLRU length_removeAll_distinct cache_inv_def)
qed

lemma cache_size_put:
  assumes inv: "cache_inv c" and pos: "0 < max_size c" and le: "cache_size c \<le> max_size c"
  shows "cache_size (put key v now c) \<le> max_size c"
proof (cases "find_entry key c")
  case None
  show ?thesis
  proof (cases "length (cache_map c) \<ge> max_size c")
    case True
    then have "cache_size c = max_size c" using le by (simp add: cache_size_def)
    moreover from this pos inv have "lru_list c \<noteq> []" using cache_size_lru[OF inv] by auto
    ultimately show ?thesis using True pos cache_keys_put_miss[OF None, of v now] cache_size_evictLRU[OF inv]
      by (simp add: cache_size_keys)
  next
    case False
    then show ?thesis using cache_keys_put_miss[OF None, of v now]
      by (simp add: cache_size_keys cache_keys_def)
  qed
next
  case (Some e)
  then show ?thesis using le by (simp add: cache_size_keys cache_keys_put_hit)
qed

lemma cache_size_apply_op:
  assumes "cache_inv c" and "0 < max_size c" and "cache_size c \<le> max_size c"
    and st: "apply_op tp c = Some c'"
  shows "cache_size c' \<le> max_size c"
proof (cases tp)
  case (Pair now op)
  note c' = apply_op_Some[OF st]
  show ?thesis
  proof (cases op)
    case (Get k)
    then show ?thesis using c' assms(3) cache_size_get_le[of k now c] by (simp add: Pair)
  next
    case (Put k v)
    then show ?thesis using c' cache_size_put[OF assms(1,2,3)] by (simp add: Pair)
  next
    case (Remove k)
    then show ?thesis using c' assms(3) cache_size_evict_le[of k c] by (simp add: Pair remove_def)
  next
    case CleanupExpired
    then show ?thesis using c' assms(3) by (simp add: Pair)
  qed
qed

lemma cache_size_run_ops_inv:
  assumes "cache_inv c" and "0 < max_size c" and "cache_size c \<le> max_size c"
    and "run_ops ops c = Some c'"
  shows "cache_size c' \<le> max_size c"
  using assms
proof (induction ops arbitrary: c)
  case Nil
  then show ?case by simp
next
  case (Cons tp ops)
  from Cons.prems(4) obtain c1 where s1: "apply_op tp c = Some c1" and r1: "run_ops ops c1 = Some c'"
    by (auto split: option.splits)
  have m: "max_size c1 = max_size c" by (rule max_size_apply_op[OF s1])
  have i1: "cache_inv c1" by (rule cache_inv_apply_op[OF Cons.prems(1) s1])
  have l1: "cache_size c1 \<le> max_size c1"
    using cache_size_apply_op[OF Cons.prems(1,2,3) s1] m by simp
  from Cons.IH[OF i1 _ l1 r1] Cons.prems(2) m show ?case by simp
qed

lemma cache_size_run_ops_le:
  assumes "0 < n" and "run_ops ops (new_LRUCache n t) = Some c"
  shows "cache_size c \<le> n"
  using cache_size_run_ops_inv[OF cache_inv_new _ _ assms(2)] assms(1)
  by (simp add: new_LRUCache_def cache_size_def)

subsection \<open>The list is ordered by recency\<close>

lemma last_touch_le: "last_touch h k \<le> length h"
  by (induction h) auto

lemma last_touch_snoc:
  "last_touch (h @ [tp]) k = (if touched_key (snd tp) = Some k then Suc (length h) else last_touch h k)"
  by (induction h) auto

lemma sorted_wrt_remove1: "sorted_wrt P xs \<Longrightarrow> sorted_wrt P (remove1 x xs)"
proof (induction xs)
  case Nil
  then show ?case by simp
next
  case (Cons a xs)
  then show ?case using set_remove1_subset[of x xs] by auto
qed

lemma sorted_wrt_butlast: "sorted_wrt P xs \<Longrightarrow> sorted_wrt P (butlast xs)"
proof (induction xs)
  case Nil
  then show ?case by simp
next
  case (Cons a xs)
  then show ?case by (auto dest: in_set_butlastD)
qed

lemma recency_sorted_cong:
  "recency_sorted st l \<Longrightarrow> (\<And>x. x \<in> set l \<Longrightarrow> st' x = st x) \<Longrightarrow> recency_sorted st' l"
  unfolding recency_sorted_def by (erule sorted_wrt_mono_rel[rotated]) simp

lemma recency_sorted_touch:
  assumes "recency_sorted st l" and "\<And>x. st x \<le> n" and "k \<notin> set l"
  shows "recency_sorted (st(k := Suc n)) (k # l)"
proof -
  have "recency_sorted (st(k := Suc n)) l"
    using assms(1) by (rule recency_sorted_cong) (use assms(3) in auto)
  moreover have "\<forall>x \<in> set l. (st(k := Suc n)) x < (st(k := Suc n)) k"
    using assms(2,3) by (auto simp: less_Suc_eq_le)
  ultimately show ?thesis by (simp add: recency_sorted_def)
qed

lemma recency_sorted_remove1: "recency_sorted st l \<Longrightarrow> recency_sorted st (remove1 x l)"
  by (simp add: recency_sorted_def sorted_wrt_remove1)

lemma recency_sorted_butlast: "recency_sorted st l \<Longrightarrow> recency_sorted st (butlast l)"
  by (simp add: recency_sorted_def sorted_wrt_butlast)

lemma recency_sorted_evict: "recency_sorted st (lru_list c) \<Longrightarrow> recency_sorted st (lru_list (evict key c))"
  by (simp add: lru_list_evict recency_sorted_remove1)

lemma last_touch_upd:
  "touched_key (snd tp) = Some k \<Longrightarrow> last_touch (h @ [tp]) = (last_touch h)(k := Suc (length h))"
  by (rule ext) (simp add: last_touch_snoc)

lemma last_touch_same:
  "touched_key (snd tp) = None \<Longrightarrow> last_touch (h @ [tp]) = last_touch h"
  by (rule ext) (simp add: last_touch_snoc)

lemma recency_sorted_get:
  assumes inv: "cache_inv c" and srt: "recency_sorted (last_touch h) (lru_list c)"
  shows "recency_sorted (last_touch (h @ [(now, Get key)])) (lru_list (snd (get key now c)))"
proof -
  let ?st' = "(last_touch h)(key := Suc (length h))"
  have st': "last_touch (h @ [(now, Get key)]) = ?st'" by (simp add: last_touch_upd)
  have r1: "recency_sorted ?st' (key # remove1 key (lru_list c))"
    using inv by (intro recency_sorted_touch recency_sorted_remove1 srt last_touch_le)
      (simp add: cache_inv_def)
  have r2: "recency_sorted ?st' (remove1 key (lru_list c))"
    using r1 by (simp add: recency_sorted_def)
  have r3: "key \<notin> set (cache_keys c) \<Longrightarrow> recency_sorted ?st' (lru_list c)"
    using srt inv by (intro recency_sorted_cong[OF srt]) (auto simp: cache_inv_def)
  show ?thesis unfolding st' using r1 r2 r3 find_entry_None_iff[of key c]
    by (auto simp: get_def lru_list_evict split: option.splits)
qed

lemma recency_sorted_put:
  assumes inv: "cache_inv c" and srt: "recency_sorted (last_touch h) (lru_list c)"
  shows "recency_sorted (last_touch (h @ [(now, Put key v)])) (lru_list (put key v now c))"
proof -
  let ?st' = "(last_touch h)(key := Suc (length h))"
  have st': "last_touch (h @ [(now, Put key v)]) = ?st'" by (simp add: last_touch_upd)
  show ?thesis
  proof (cases "find_entry key c")
    case None
    then have notin: "key \<notin> set (lru_list c)" using inv by (simp add: find_entry_None_iff cache_inv_def)
    let ?l = "lru_list (if length (cache_map c) \<ge> max_size c then evictLRU c else c)"
    have "recency_sorted (last_touch h) ?l" using srt by (simp add: lru_list_evictLRU recency_sorted_butlast)
    moreover have "key \<notin> set ?l" using notin by (auto simp: lru_list_evictLRU dest: in_set_butlastD)
    ultimately have "recency_sorted ?st' (key # ?l)"
      by (intro recency_sorted_touch last_touch_le)
    then show ?thesis unfolding st' by (simp only: lru_list_put_miss[OF None])
  next
    case (Some e)
    have "recency_sorted ?st' (key # remove1 key (lru_list c))"
      using inv by (intro recency_sorted_touch recency_sorted_remove1 srt last_touch_le)
        (simp add: cache_inv_def)
    then show ?thesis unfolding st' by (simp only: lru_list_put_hit[OF Some])
  qed
qed

lemma recency_sorted_apply_op:
  assumes inv: "cache_inv c" and srt: "recency_sorted (last_touch h) (lru_list c)"
    and st: "apply_op tp c = Some c'"
  shows "recency_sorted (last_touch (h @ [tp])) (lru_list c')"
proof (cases tp)
  case (Pair now op)
  note c' = apply_op_Some[OF st]
  show ?thesis
  proof (cases op)
    case (Get k)
    then show ?thesis using c' recency_sorted_get[OF inv srt] by (simp add: Pair)
  next
    case (Put k v)
    then show ?thesis using c' recency_sorted_put[OF inv srt] by (simp add: Pair)
  next
    case (Remove k)
    then show ?thesis using c' srt by (simp add: Pair remove_def last_touch_same recency_sorted_evict)
  next
    case CleanupExpired
    then show ?thesis using c' srt by (simp add: Pair last_touch_same)
  qed
qed

lemma recency_sorted_run_ops:
  "run_ops h (new_LRUCache n t) = Some c \<Longrightarrow> recency_sorted (last_touch h) (lru_list c)"
proof (induction h arbitrary: c rule: rev_induct)
  case Nil
  then show ?case by (auto simp: new_LRUCache_def recency_sorted_def)
next
  case (snoc tp h)
  from snoc.prems obtain c1 where r1: "run_ops h (new_LRUCache n t) = Some c1"
      and s1: "apply_op tp c1 = Some c"
    by (auto simp: run_ops_snoc split: option.splits)
  have "cache_inv c1" by (rule cache_inv_run_ops[OF cache_inv_new r1])
  from recency_sorted_apply_op[OF this snoc.IH[OF r1] s1] show ?case .
qed

lemma recency_sorted_last_least:
  assumes "recency_sorted st l" and "x \<in> set l" and "x \<noteq> last l"
  shows "st (last l) < st x"
  using assms
proof (induction l)
  case Nil
  then show ?case by simp
next
  case (Cons a l)
  then show ?case by (cases "l = []") (auto simp: recency_sorted_def)
qed

subsection \<open>Eviction at capacity\<close>

text \<open>
  C3. Take any cache of capacity \<open>n\<close> reached from the empty cache by a sequence \<open>h\<close> of
  operations (one that has a result), holding \<open>n\<close> keys (it is at capacity) none of which is expired, and let
  \<open>victim\<close> be the resident key that was least recently touched by a \<open>get\<close> or \<open>put\<close> of
  \<open>h\<close>. Putting one more key \<open>k'\<close>, distinct from the residents, evicts exactly \<open>victim\<close>:
  its entry is gone and a later \<open>get\<close> of it returns absent, every other resident key keeps
  its entry and is still contained, the new key is stored, and the cache still holds
  \<open>n\<close> entries.
\<close>

theorem put_at_capacity_evicts_lru:
  assumes c: "run_ops h (new_LRUCache n t) = Some c"
    and full: "cache_size c = n"
    and fresh: "find_entry k' c = None"
    and resident: "find_entry victim c \<noteq> None"
    and least: "\<forall>k. find_entry k c \<noteq> None \<longrightarrow> k \<noteq> victim \<longrightarrow> last_touch h victim < last_touch h k"
    and live: "\<forall>k e. find_entry k c = Some e \<longrightarrow> \<not> isExpired now (expiry_time e)"
  shows "find_entry victim (put k' v now c) = None
       \<and> fst (get victim now' (put k' v now c)) = None
       \<and> (\<forall>k. k \<noteq> victim \<longrightarrow> k \<noteq> k' \<longrightarrow> find_entry k (put k' v now c) = find_entry k c)
       \<and> (\<forall>k. find_entry k c \<noteq> None \<longrightarrow> k \<noteq> victim \<longrightarrow> contains k now (put k' v now c))
       \<and> find_entry k' (put k' v now c) = Some \<lparr>entry_value = v, expiry_time = now + ttl c * ticks_per_second\<rparr>
       \<and> cache_size (put k' v now c) = n"
proof -
  have inv: "cache_inv c" by (rule cache_inv_run_ops[OF cache_inv_new c])
  have srt: "recency_sorted (last_touch h) (lru_list c)" by (rule recency_sorted_run_ops[OF c])
  have ms: "max_size c = n" using max_size_run_ops[OF c] by (simp add: new_LRUCache_def)
  have vin: "victim \<in> set (lru_list c)" using resident inv by (simp add: find_entry_None_iff cache_inv_def)
  then have ne: "lru_list c \<noteq> []" by auto
  have vlast: "victim = last (lru_list c)"
  proof (rule ccontr)
    assume neq: "victim \<noteq> last (lru_list c)"
    have "last (lru_list c) \<in> set (cache_keys c)" using last_in_set[OF ne] inv by (simp add: cache_inv_def)
    then have "find_entry (last (lru_list c)) c \<noteq> None" by (simp add: find_entry_None_iff)
    with least neq have "last_touch h victim < last_touch h (last (lru_list c))" by metis
    moreover have "last_touch h (last (lru_list c)) < last_touch h victim"
      using recency_sorted_last_least[OF srt vin neq] .
    ultimately show False by simp
  qed
  have kv: "k' \<noteq> victim" using fresh resident by auto
  have cm: "cache_map (put k' v now c) =
      (k', \<lparr>entry_value = v, expiry_time = now + ttl c * ticks_per_second\<rparr>) # AList.delete victim (cache_map c)"
    using fresh full ms ne kv
    by (simp add: put_def Let_def cache_size_def evictLRU_def vlast emplace_def find_entry_def)
  have f1: "find_entry victim (put k' v now c) = None"
    using kv by (simp add: find_entry_def cm delete_conv')
  have f2: "\<forall>k. k \<noteq> victim \<longrightarrow> k \<noteq> k' \<longrightarrow> find_entry k (put k' v now c) = find_entry k c"
    by (simp add: find_entry_def cm)
  have f3: "\<forall>k. find_entry k c \<noteq> None \<longrightarrow> k \<noteq> victim \<longrightarrow> contains k now (put k' v now c)"
  proof (intro allI impI)
    fix k assume r: "find_entry k c \<noteq> None" and nv: "k \<noteq> victim"
    then have "k \<noteq> k'" using fresh by auto
    with nv f2 have "find_entry k (put k' v now c) = find_entry k c" by simp
    then show "contains k now (put k' v now c)" using r live by (auto simp: contains_def)
  qed
  have "victim \<in> set (cache_keys c)" using resident by (simp add: find_entry_None_iff)
  then have "length (cache_keys (evictLRU c)) = length (cache_keys c) - 1"
    using inv ne by (simp add: cache_keys_evictLRU vlast length_removeAll_distinct cache_inv_def)
  moreover have "0 < length (cache_keys c)" using \<open>victim \<in> set (cache_keys c)\<close> by (cases "cache_keys c") auto
  moreover have "cache_keys (put k' v now c) = k' # cache_keys (evictLRU c)"
    using cache_keys_put_miss[OF fresh, of v now] full ms by (simp add: cache_size_def)
  moreover have "length (cache_keys c) = n" using full by (simp add: cache_size_keys)
  ultimately have f5: "cache_size (put k' v now c) = n"
    by (simp add: cache_size_keys)
  show ?thesis using f1 f2 f3 f5 by (simp add: get_def find_entry_put_same)
qed


lemma demo_state:
  "run_ops demo_history (new_LRUCache 2 3600) = Some demo_cache"
  by (simp add: demo_history_def demo_cache_def put_def get_def find_entry_def new_LRUCache_def
      emplace_def isExpired_def ticks_per_second_def)

theorem put_at_capacity_evicts_lru_witness:
  "run_ops demo_history (new_LRUCache 2 3600) = Some demo_cache
   \<and> find_entry ''tv2'' (put ''tv3'' ''c'' 3 demo_cache) = None
   \<and> fst (get ''tv2'' 4 (put ''tv3'' ''c'' 3 demo_cache)) = None
   \<and> contains ''tv1'' 3 (put ''tv3'' ''c'' 3 demo_cache)
   \<and> contains ''tv3'' 3 (put ''tv3'' ''c'' 3 demo_cache)
   \<and> cache_size (put ''tv3'' ''c'' 3 demo_cache) = 2"
proof -
  have h1: "cache_size demo_cache = 2" by (simp add: demo_cache_def cache_size_def)
  have h2: "find_entry ''tv3'' demo_cache = None" by (simp add: demo_cache_def find_entry_def)
  have h3: "find_entry ''tv2'' demo_cache \<noteq> None" by (simp add: demo_cache_def find_entry_def)
  have h4: "\<forall>k. find_entry k demo_cache \<noteq> None \<longrightarrow> k \<noteq> ''tv2''
         \<longrightarrow> last_touch demo_history ''tv2'' < last_touch demo_history k"
    by (simp add: demo_cache_def find_entry_def demo_history_def)
  have h5: "\<forall>k e. find_entry k demo_cache = Some e \<longrightarrow> \<not> isExpired 3 (expiry_time e)"
    by (auto simp: demo_cache_def find_entry_def isExpired_def split: if_splits)
  have h6: "find_entry ''tv1'' demo_cache \<noteq> None" by (simp add: demo_cache_def find_entry_def)
  have h7: "ttl demo_cache = 3600" by (simp add: demo_cache_def)
  note r = put_at_capacity_evicts_lru[OF demo_state h1 h2 h3 h4 h5, of "''c''" 4]
  from r have c1: "find_entry ''tv2'' (put ''tv3'' ''c'' 3 demo_cache) = None" by blast
  from r have c2: "fst (get ''tv2'' 4 (put ''tv3'' ''c'' 3 demo_cache)) = None" by blast
  from r h6 have c3: "contains ''tv1'' 3 (put ''tv3'' ''c'' 3 demo_cache)" by simp
  from r have "find_entry ''tv3'' (put ''tv3'' ''c'' 3 demo_cache)
      = Some \<lparr>entry_value = ''c'', expiry_time = 3 + ttl demo_cache * ticks_per_second\<rparr>" by blast
  then have c4: "contains ''tv3'' 3 (put ''tv3'' ''c'' 3 demo_cache)"
    by (simp add: contains_def isExpired_def h7 ticks_per_second_def)
  from r have c5: "cache_size (put ''tv3'' ''c'' 3 demo_cache) = 2" by blast
  from demo_state c1 c2 c3 c4 c5 show ?thesis by blast
qed

subsection \<open>Capacity zero\<close>

text \<open>
  C8. The number of entries is bounded by the capacity for every capacity \<open>n > 0\<close> and
  every sequence of operations that has a result (lemma \<open>cache_size_run_ops_le\<close>). A cache
  built with
  capacity 0 is different: \<open>put\<close> asks \<open>evictLRU\<close> to make room, \<open>evictLRU\<close> returns at once on
  the empty list, and the entry is inserted all the same. After one \<open>put\<close> the cache of
  capacity 0 holds one entry.
\<close>

theorem capacity_zero_put_stores_entry:
  "map_option cache_size (run_ops [(0, Put ''tv1'' ''client1'')] (new_LRUCache 0 3600)) = Some 1"
  by (simp add: put_def find_entry_def new_LRUCache_def evictLRU_def emplace_def cache_size_def)

section \<open>Properties of BackgroundLogger\<close>

lemma run_events_append:
  "run_events (es @ es') s = (case run_events es s of None \<Rightarrow> None | Some s' \<Rightarrow> run_events es' s')"
  by (induction es arbitrary: s) (auto split: option.splits)

lemma run_events_snoc:
  "run_events (es @ [e]) s = (case run_events es s of None \<Rightarrow> None | Some s' \<Rightarrow> logger_step e s')"
  by (simp add: run_events_append split: option.splits)

lemma logger_inv_new: "logger_inv (new_BackgroundLogger n)"
  by (simp add: logger_inv_def new_BackgroundLogger_def)

lemma logger_inv_start: "logger_inv s \<Longrightarrow> start s = Some s' \<Longrightarrow> logger_inv s'"
  by (auto simp: logger_inv_def start_def split: if_splits)

lemma logger_inv_enqueue: "logger_inv s \<Longrightarrow> logger_inv (snd (enqueue task s))"
  by (auto simp: logger_inv_def enqueue_def)

lemma logger_inv_worker_step: "logger_inv s \<Longrightarrow> logger_inv (worker_step s)"
proof (cases "queue s")
  case Nil
  assume "logger_inv s"
  then show ?thesis using Nil by (auto simp: logger_inv_def worker_step_def)
next
  case (Cons task rest)
  assume "logger_inv s"
  then show ?thesis using Cons by (auto simp: logger_inv_def worker_step_def)
qed

lemma logger_inv_stop_call: "logger_inv s \<Longrightarrow> logger_inv (stop_call s)"
  by (auto simp: logger_inv_def stop_call_def)

lemma logger_inv_stop_return: "logger_inv s \<Longrightarrow> stop_return s = Some s' \<Longrightarrow> logger_inv s'"
  by (auto simp: logger_inv_def stop_return_def split: if_splits)

lemma logger_inv_step: "logger_inv s \<Longrightarrow> logger_step e s = Some s' \<Longrightarrow> logger_inv s'"
proof (cases e)
  case Start
  assume "logger_inv s" "logger_step e s = Some s'"
  then show ?thesis using Start logger_inv_start[of s s'] by simp
next
  case (Enqueue task)
  assume "logger_inv s" "logger_step e s = Some s'"
  then show ?thesis using Enqueue logger_inv_enqueue[of s task] by auto
next
  case WorkerStep
  assume "logger_inv s" "logger_step e s = Some s'"
  then show ?thesis using WorkerStep logger_inv_worker_step[of s] by auto
next
  case StopCall
  assume "logger_inv s" "logger_step e s = Some s'"
  then show ?thesis using StopCall logger_inv_stop_call[of s] by auto
next
  case StopReturn
  assume "logger_inv s" "logger_step e s = Some s'"
  then show ?thesis using StopReturn logger_inv_stop_return[of s s'] by simp
qed

lemma logger_inv_run_events:
  "logger_inv s \<Longrightarrow> run_events es s = Some s' \<Longrightarrow> logger_inv s'"
proof (induction es arbitrary: s)
  case Nil
  then show ?case by simp
next
  case (Cons e es)
  from Cons.prems(2) obtain s1 where s1: "logger_step e s = Some s1" and r: "run_events es s1 = Some s'"
    by (auto split: option.splits)
  from logger_inv_step[OF Cons.prems(1) s1] have "logger_inv s1" .
  from Cons.IH[OF this r] show ?case .
qed

lemma executed_outcomes_step:
  "\<forall>p \<in> set (executed s). snd p = run_task (fst p) \<Longrightarrow> logger_step e s = Some s' \<Longrightarrow>
   \<forall>p \<in> set (executed s'). snd p = run_task (fst p)"
proof (cases e)
  case Start
  assume "\<forall>p \<in> set (executed s). snd p = run_task (fst p)" "logger_step e s = Some s'"
  then show ?thesis using Start by (auto simp: start_def split: if_splits)
next
  case (Enqueue task)
  assume "\<forall>p \<in> set (executed s). snd p = run_task (fst p)" "logger_step e s = Some s'"
  then show ?thesis using Enqueue by (auto simp: enqueue_def split: if_splits)
next
  case WorkerStep
  assume "\<forall>p \<in> set (executed s). snd p = run_task (fst p)" "logger_step e s = Some s'"
  then show ?thesis using WorkerStep by (auto simp: worker_step_def split: if_splits list.splits)
next
  case StopCall
  assume "\<forall>p \<in> set (executed s). snd p = run_task (fst p)" "logger_step e s = Some s'"
  then show ?thesis using StopCall by (auto simp: stop_call_def split: if_splits)
next
  case StopReturn
  assume "\<forall>p \<in> set (executed s). snd p = run_task (fst p)" "logger_step e s = Some s'"
  then show ?thesis using StopReturn by (auto simp: stop_return_def split: if_splits)
qed

lemma executed_outcomes_run_events:
  "\<forall>p \<in> set (executed s). snd p = run_task (fst p) \<Longrightarrow> run_events es s = Some s' \<Longrightarrow>
   \<forall>p \<in> set (executed s'). snd p = run_task (fst p)"
proof (induction es arbitrary: s)
  case Nil
  then show ?case by simp
next
  case (Cons e es)
  from Cons.prems(2) obtain s1 where s1: "logger_step e s = Some s1" and r: "run_events es s1 = Some s'"
    by (auto split: option.splits)
  from executed_outcomes_step[OF Cons.prems(1) s1] Cons.IH[OF _ r] show ?case by blast
qed

lemma enqueue_all:
  "run_events (map Enqueue ts) s =
     Some (s\<lparr>queue := queue s @ take (max_queue_size s - length (queue s)) ts,
             accepted := accepted s @ take (max_queue_size s - length (queue s)) ts,
             dropped_count := dropped_count s + (length ts - (max_queue_size s - length (queue s)))\<rparr>)"
proof (induction ts arbitrary: s)
  case Nil
  then show ?case by simp
next
  case (Cons t ts)
  show ?case
  proof (cases "length (queue s) \<ge> max_queue_size s")
    case True
    then show ?thesis by (simp add: Cons.IH enqueue_def)
  next
    case False
    then have "max_queue_size s - length (queue s) = Suc (max_queue_size s - Suc (length (queue s)))" by simp
    then show ?thesis using False by (simp add: Cons.IH enqueue_def)
  qed
qed

lemma worker_steps:
  "worker_alive s \<Longrightarrow> k \<le> length (queue s) \<Longrightarrow>
   run_events (replicate k WorkerStep) s =
     Some (s\<lparr>queue := drop k (queue s),
             executed := executed s @ map (\<lambda>t. (t, run_task t)) (take k (queue s))\<rparr>)"
proof (induction k arbitrary: s)
  case 0
  then show ?case by simp
next
  case (Suc k)
  then obtain t rest where q: "queue s = t # rest" by (cases "queue s") auto
  let ?s1 = "s\<lparr>queue := rest, executed := executed s @ [(t, run_task t)]\<rparr>"
  have "worker_step s = ?s1" using Suc.prems(1) q by (simp add: worker_step_def)
  moreover have "run_events (replicate k WorkerStep) ?s1 =
     Some (?s1\<lparr>queue := drop k (queue ?s1),
             executed := executed ?s1 @ map (\<lambda>t. (t, run_task t)) (take k (queue ?s1))\<rparr>)"
    using Suc.prems q by (intro Suc.IH) auto
  ultimately show ?case using q by simp
qed

lemma run_events_append_Some:
  "run_events es s = Some s1 \<Longrightarrow> run_events (es @ es') s = run_events es' s1"
  by (simp add: run_events_append)

lemma worker_steps_idle:
  "worker_alive s \<Longrightarrow> running s \<Longrightarrow> queue s = [] \<Longrightarrow> run_events (replicate j WorkerStep) s = Some s"
  by (induction j) (simp_all add: worker_step_def)

lemma worker_steps_dead:
  "\<not> worker_alive s \<Longrightarrow> run_events (replicate k WorkerStep) s = Some s"
  by (induction k) (simp_all add: worker_step_def)

lemma running_worker_step: "running (worker_step s) = running s"
  by (simp add: worker_step_def split: list.splits)

lemma run_turns_and_stops:
  "turns_and_stops es \<Longrightarrow> \<not> running s \<Longrightarrow>
   run_events es s = run_events (replicate (worker_turns es) WorkerStep) s"
proof (induction es arbitrary: s)
  case Nil
  then show ?case by (simp add: worker_turns_def)
next
  case (Cons e es)
  from Cons.prems(1) have e: "e = WorkerStep \<or> e = StopCall" and es: "turns_and_stops es"
    by (simp_all add: turns_and_stops_def)
  from e show ?case
  proof
    assume w: "e = WorkerStep"
    have "\<not> running (worker_step s)" using Cons.prems(2) by (simp add: running_worker_step)
    from Cons.IH[OF es this] w show ?thesis by (simp add: worker_turns_def)
  next
    assume c: "e = StopCall"
    have "stop_call s = s" using Cons.prems(2) by (simp add: stop_call_def)
    with Cons.IH[OF es Cons.prems(2)] c show ?thesis by (simp add: worker_turns_def)
  qed
qed

text \<open>
  The worker after \<open>stop()\<close> was called: \<open>k\<close> turns run the first \<open>k\<close> queued tasks; the turn
  after the last task finds the queue empty and \<open>running\<close> clear, and the worker leaves its
  loop.
\<close>

lemma worker_steps_drain:
  assumes "worker_alive s" and "\<not> running s"
  shows "run_events (replicate k WorkerStep) s =
     Some (if k \<le> length (queue s)
           then s\<lparr>queue := drop k (queue s),
                  executed := executed s @ map (\<lambda>t. (t, run_task t)) (take k (queue s))\<rparr>
           else s\<lparr>queue := [],
                  executed := executed s @ map (\<lambda>t. (t, run_task t)) (queue s),
                  worker_alive := False\<rparr>)"
proof (cases "k \<le> length (queue s)")
  case True
  then show ?thesis using worker_steps[OF assms(1) True] by simp
next
  case False
  let ?n = "length (queue s)"
  let ?s1 = "s\<lparr>queue := [], executed := executed s @ map (\<lambda>t. (t, run_task t)) (queue s)\<rparr>"
  from False have k: "k = ?n + Suc (k - Suc ?n)" by simp
  have "replicate k WorkerStep = replicate ?n WorkerStep @ WorkerStep # replicate (k - Suc ?n) WorkerStep"
    by (subst k) (simp only: replicate_add replicate_Suc)
  moreover have "run_events (replicate ?n WorkerStep) s = Some ?s1"
    using worker_steps[OF assms(1), of ?n] by simp
  moreover have "worker_step ?s1 = ?s1\<lparr>worker_alive := False\<rparr>"
    using assms by (simp add: worker_step_def)
  moreover have "run_events (replicate (k - Suc ?n) WorkerStep) (?s1\<lparr>worker_alive := False\<rparr>)
      = Some (?s1\<lparr>worker_alive := False\<rparr>)"
    by (rule worker_steps_dead) simp
  ultimately show ?thesis using False by (simp add: run_events_append)
qed

lemma overflow_schedule_result:
  assumes len: "length ts = Suc cap" and post: "turns_and_stops post"
  shows "run_events (overflow_schedule j ts post) (new_BackgroundLogger cap) =
     (if cap < worker_turns post
      then Some \<lparr>max_queue_size = cap, running = False, dropped_count = 1, queue = [],
                 worker_alive = False, joining = False, accepted = take cap ts,
                 executed = map (\<lambda>t. (t, run_task t)) (take cap ts),
                 accepted_before_stop = cap\<rparr>
      else None)"
proof -
  let ?s1 = "\<lparr>max_queue_size = cap, running = True, dropped_count = 0, queue = [],
           worker_alive = True, joining = False, accepted = [], executed = [],
           accepted_before_stop = 0\<rparr>"
  let ?s2 = "\<lparr>max_queue_size = cap, running = True, dropped_count = 1, queue = take cap ts,
           worker_alive = True, joining = False, accepted = take cap ts, executed = [],
           accepted_before_stop = 0\<rparr>"
  let ?s3 = "\<lparr>max_queue_size = cap, running = False, dropped_count = 1, queue = take cap ts,
           worker_alive = True, joining = True, accepted = take cap ts, executed = [],
           accepted_before_stop = cap\<rparr>"
  let ?k = "worker_turns post"
  let ?s4 = "if ?k \<le> cap
           then ?s3\<lparr>queue := drop ?k (take cap ts),
                    executed := map (\<lambda>t. (t, run_task t)) (take ?k (take cap ts))\<rparr>
           else ?s3\<lparr>queue := [], executed := map (\<lambda>t. (t, run_task t)) (take cap ts),
                    worker_alive := False\<rparr>"
  have e1: "start (new_BackgroundLogger cap) = Some ?s1"
    by (simp add: start_def new_BackgroundLogger_def)
  have e1': "run_events (replicate j WorkerStep) ?s1 = Some ?s1"
    by (rule worker_steps_idle) simp_all
  have e2: "run_events (map Enqueue ts) ?s1 = Some ?s2"
    using len by (simp add: enqueue_all)
  have e3: "stop_call ?s2 = ?s3"
    using len by (simp add: stop_call_def)
  have "run_events post ?s3 = run_events (replicate ?k WorkerStep) ?s3"
    by (rule run_turns_and_stops[OF post]) simp
  also have "\<dots> = Some ?s4"
    using len worker_steps_drain[of ?s3 ?k] by simp
  finally have e4: "run_events post ?s3 = Some ?s4" .
  have e5: "stop_return ?s4 =
     (if cap < ?k then Some (?s3\<lparr>queue := [], executed := map (\<lambda>t. (t, run_task t)) (take cap ts),
                    worker_alive := False, joining := False\<rparr>)
      else None)"
    by (simp add: stop_return_def)
  have "run_events (overflow_schedule j ts post) (new_BackgroundLogger cap) =
        run_events (replicate j WorkerStep @ (map Enqueue ts @ ([StopCall] @ post @ [StopReturn]))) ?s1"
    unfolding overflow_schedule_def using e1 by simp
  also have "\<dots> = run_events (map Enqueue ts @ ([StopCall] @ post @ [StopReturn])) ?s1"
    using e1' by (rule run_events_append_Some)
  also have "\<dots> = run_events ([StopCall] @ post @ [StopReturn]) ?s2"
    using e2 by (rule run_events_append_Some)
  also have "\<dots> = run_events (post @ [StopReturn]) ?s3"
    using e3 by simp
  also have "\<dots> = run_events [StopReturn] ?s4"
    using e4 by (rule run_events_append_Some)
  also have "\<dots> = stop_return ?s4"
    by (simp split: option.splits)
  finally show ?thesis using e5 by simp
qed

subsection \<open>A full queue drops the task\<close>

text \<open>
  C5. A call of \<open>enqueue\<close> on a queue that already holds as many tasks as the configured
  capacity returns false, leaves the queue (and everything else) as it was, and adds exactly
  one to the drop counter. In particular, take any run in which one task more than the
  capacity is enqueued on a started logger while the worker consumes nothing, \<open>stop()\<close> is
  then called, and the worker takes its turns in any number (\<open>overflow_schedule\<close>). In
  every such run \<open>stop()\<close> returns only once the worker has taken more turns than the
  capacity, so not before it has emptied the queue and left its loop; and whenever \<open>stop()\<close>
  has returned, exactly one task has been dropped, the executed tasks are the first \<open>cap\<close>
  ones in their order, the dropped (last) task is not among them, and the queue is empty.
  With \<open>cap = 1000\<close> these are the 1001 tasks, 1 drop and 1000 executions of the
  specification.
\<close>

theorem enqueue_at_capacity_is_dropped:
  "(length (queue s) = max_queue_size s \<longrightarrow>
      enqueue task s = (False, s\<lparr>dropped_count := dropped_count s + 1\<rparr>))
   \<and> (length ts = Suc cap \<and> distinct ts \<and> turns_and_stops post \<longrightarrow>
        (cap < worker_turns post \<longrightarrow>
           (\<exists>s'. run_events (overflow_schedule j ts post) (new_BackgroundLogger cap) = Some s'
              \<and> dropped_count s' = 1
              \<and> length (executed s') = cap
              \<and> map fst (executed s') = butlast ts
              \<and> last ts \<notin> set (map fst (executed s'))
              \<and> queue s' = []))
        \<and> (worker_turns post \<le> cap \<longrightarrow>
             run_events (overflow_schedule j ts post) (new_BackgroundLogger cap) = None))"
proof (intro conjI impI)
  assume "length (queue s) = max_queue_size s"
  then show "enqueue task s = (False, s\<lparr>dropped_count := dropped_count s + 1\<rparr>)"
    by (simp add: enqueue_def)
next
  assume h: "length ts = Suc cap \<and> distinct ts \<and> turns_and_stops post"
    and k: "cap < worker_turns post"
  from h have len: "length ts = Suc cap" and d: "distinct ts" and post: "turns_and_stops post"
    by simp_all
  from len have ne: "ts \<noteq> []" by auto
  have tk: "take cap ts = butlast ts" using len by (simp add: butlast_conv_take)
  have "map (fst \<circ> (\<lambda>t. (t, run_task t))) (butlast ts) = butlast ts"
    by (simp add: comp_def)
  moreover have "last ts \<notin> set (butlast ts)"
    using d ne by (metis append_butlast_last_id distinct_butlast not_distinct_conv_prefix)
  ultimately show "\<exists>s'. run_events (overflow_schedule j ts post) (new_BackgroundLogger cap) = Some s'
           \<and> dropped_count s' = 1
           \<and> length (executed s') = cap
           \<and> map fst (executed s') = butlast ts
           \<and> last ts \<notin> set (map fst (executed s'))
           \<and> queue s' = []"
    using overflow_schedule_result[OF len post, of j] k len by (simp add: tk image_image)
next
  assume h: "length ts = Suc cap \<and> distinct ts \<and> turns_and_stops post"
    and k: "worker_turns post \<le> cap"
  then show "run_events (overflow_schedule j ts post) (new_BackgroundLogger cap) = None"
    using overflow_schedule_result[of ts cap post j] by simp
qed

theorem enqueue_at_capacity_is_dropped_witness:
  "enqueue \<lparr>task_id = 1, throws = False\<rparr>
       (snd (enqueue \<lparr>task_id = 0, throws = False\<rparr> (new_BackgroundLogger 1)))
     = (False, (snd (enqueue \<lparr>task_id = 0, throws = False\<rparr> (new_BackgroundLogger 1)))
                 \<lparr>dropped_count := 1\<rparr>)
   \<and> (\<exists>s'. run_events (overflow_schedule 3 (numbered_tasks 1001)
                          (replicate 400 WorkerStep @ [StopCall] @ replicate 601 WorkerStep))
             (new_BackgroundLogger 1000) = Some s'
           \<and> dropped_count s' = 1
           \<and> length (executed s') = 1000
           \<and> map fst (executed s') = butlast (numbered_tasks 1001)
           \<and> last (numbered_tasks 1001) \<notin> set (map fst (executed s'))
           \<and> queue s' = [])
   \<and> run_events (overflow_schedule 3 (numbered_tasks 1001) (replicate 1000 WorkerStep))
       (new_BackgroundLogger 1000) = None"
proof -
  let ?s = "snd (enqueue \<lparr>task_id = 0, throws = False\<rparr> (new_BackgroundLogger 1))"
  let ?post = "replicate 400 WorkerStep @ [StopCall] @ replicate 601 WorkerStep"
  have h1: "length (queue ?s) = max_queue_size ?s"
    by (simp add: enqueue_def new_BackgroundLogger_def)
  have d0: "dropped_count ?s = 0"
    by (simp add: enqueue_def new_BackgroundLogger_def)
  have h2: "length (numbered_tasks 1001) = Suc 1000 \<and> distinct (numbered_tasks 1001)"
    by (simp add: numbered_tasks_def distinct_map inj_on_def)
  have p1: "turns_and_stops ?post" and k1: "1000 < worker_turns ?post"
    by (simp_all add: turns_and_stops_def worker_turns_def list_all_iff)
  have p2: "turns_and_stops (replicate 1000 WorkerStep)"
    and k2: "worker_turns (replicate 1000 WorkerStep) \<le> 1000"
    by (simp_all add: turns_and_stops_def worker_turns_def list_all_iff)
  note r = enqueue_at_capacity_is_dropped[of ?s "\<lparr>task_id = 1, throws = False\<rparr>"
      "numbered_tasks 1001" 1000 ?post 3]
  from r h1 d0 have c1: "enqueue \<lparr>task_id = 1, throws = False\<rparr> ?s = (False, ?s\<lparr>dropped_count := 1\<rparr>)"
    by simp
  from r h2 p1 k1 have c2: "\<exists>s'. run_events (overflow_schedule 3 (numbered_tasks 1001) ?post)
             (new_BackgroundLogger 1000) = Some s'
           \<and> dropped_count s' = 1
           \<and> length (executed s') = 1000
           \<and> map fst (executed s') = butlast (numbered_tasks 1001)
           \<and> last (numbered_tasks 1001) \<notin> set (map fst (executed s'))
           \<and> queue s' = []"
    by blast
  from enqueue_at_capacity_is_dropped[of ?s "\<lparr>task_id = 1, throws = False\<rparr>"
      "numbered_tasks 1001" 1000 "replicate 1000 WorkerStep" 3] h2 p2 k2
  have c3: "run_events (overflow_schedule 3 (numbered_tasks 1001) (replicate 1000 WorkerStep))
       (new_BackgroundLogger 1000) = None"
    by blast
  from c1 c2 c3 show ?thesis by blast
qed

subsection \<open>Order of execution and shutdown\<close>

text \<open>
  C6, as the code has it. In every state the logger can reach, the tasks run by the worker
  are an initial segment of the accepted tasks, in the order of acceptance, each run once,
  and the rest are still queued; a task that throws is caught and logged like any other,
  and the tasks behind it run all the same. When a \<open>stop()\<close> that was called on a running
  logger returns (its \<open>join()\<close> returns), every task accepted before that call has been run.
  A \<open>stop()\<close> called while the logger is not running changes nothing and returns at once.
\<close>

theorem accepted_tasks_run_once_in_order:
  assumes "run_events es (new_BackgroundLogger n) = Some s"
  shows "accepted s = map fst (executed s) @ queue s
       \<and> (\<forall>p \<in> set (executed s). snd p = run_task (fst p))
       \<and> (\<forall>s'. logger_step StopReturn s = Some s' \<longrightarrow>
            accepted_before_stop s' \<le> length (executed s') \<and>
            take (accepted_before_stop s') (accepted s')
              = map fst (take (accepted_before_stop s') (executed s')))
       \<and> (\<not> running s \<longrightarrow> logger_step StopCall s = Some s)"
proof -
  have inv: "logger_inv s" using logger_inv_run_events[OF logger_inv_new assms] .
  then have a: "accepted s = map fst (executed s) @ queue s" by (simp add: logger_inv_def)
  have b: "\<forall>p \<in> set (executed s). snd p = run_task (fst p)"
    using executed_outcomes_run_events[OF _ assms] by (simp add: new_BackgroundLogger_def)
  have c: "stop_return s \<noteq> None \<longrightarrow>
            accepted_before_stop s \<le> length (executed s) \<and>
            take (accepted_before_stop s) (accepted s)
              = map fst (take (accepted_before_stop s) (executed s))"
  proof
    assume "stop_return s \<noteq> None"
    then have "joining s \<and> \<not> worker_alive s" by (simp add: stop_return_def split: if_splits)
    with inv have le: "accepted_before_stop s \<le> length (executed s)" by (simp add: logger_inv_def)
    then show "accepted_before_stop s \<le> length (executed s) \<and>
            take (accepted_before_stop s) (accepted s)
              = map fst (take (accepted_before_stop s) (executed s))"
      by (simp add: a take_map)
  qed
  have d: "\<forall>s'. logger_step StopReturn s = Some s' \<longrightarrow>
            accepted_before_stop s' \<le> length (executed s') \<and>
            take (accepted_before_stop s') (accepted s')
              = map fst (take (accepted_before_stop s') (executed s'))"
  proof (intro allI impI)
    fix s' assume st: "logger_step StopReturn s = Some s'"
    then have ne: "stop_return s \<noteq> None" by simp
    from st have "s' = s\<lparr>joining := False\<rparr>" by (simp add: stop_return_def split: if_splits)
    then show "accepted_before_stop s' \<le> length (executed s') \<and>
            take (accepted_before_stop s') (accepted s')
              = map fst (take (accepted_before_stop s') (executed s'))"
      using c ne by simp
  qed
  have e: "\<not> running s \<longrightarrow> logger_step StopCall s = Some s" by (simp add: stop_call_def)
  from a b d e show ?thesis by blast
qed



lemma drain_run_state:
  "run_events drain_run (new_BackgroundLogger 1000) =
     Some \<lparr>max_queue_size = 1000, running = False, dropped_count = 0, queue = [],
           worker_alive = False, joining = True,
           accepted = [\<lparr>task_id = 0, throws = True\<rparr>, \<lparr>task_id = 1, throws = False\<rparr>],
           executed = [(\<lparr>task_id = 0, throws = True\<rparr>, Caught),
                       (\<lparr>task_id = 1, throws = False\<rparr>, Completed)],
           accepted_before_stop = 2\<rparr>"
  by (simp add: drain_run_def new_BackgroundLogger_def start_def enqueue_def stop_call_def
      worker_step_def run_task_def)

theorem accepted_tasks_run_once_in_order_witness:
  "\<exists>s s'. run_events drain_run (new_BackgroundLogger 1000) = Some s
      \<and> logger_step StopReturn s = Some s'
      \<and> accepted s = map fst (executed s) @ queue s
      \<and> executed s' = [(\<lparr>task_id = 0, throws = True\<rparr>, Caught),
                         (\<lparr>task_id = 1, throws = False\<rparr>, Completed)]
      \<and> accepted_before_stop s' = 2
      \<and> accepted_before_stop s' \<le> length (executed s')
      \<and> take (accepted_before_stop s') (accepted s')
           = map fst (take (accepted_before_stop s') (executed s'))"
proof -
  let ?s = "\<lparr>max_queue_size = 1000, running = False, dropped_count = 0, queue = [],
           worker_alive = False, joining = True,
           accepted = [\<lparr>task_id = 0, throws = True\<rparr>, \<lparr>task_id = 1, throws = False\<rparr>],
           executed = [(\<lparr>task_id = 0, throws = True\<rparr>, Caught),
                       (\<lparr>task_id = 1, throws = False\<rparr>, Completed)],
           accepted_before_stop = 2\<rparr>"
  have st: "logger_step StopReturn ?s = Some (?s\<lparr>joining := False\<rparr>)"
    by (simp add: stop_return_def)
  note r = accepted_tasks_run_once_in_order[OF drain_run_state]
  from r have a: "accepted ?s = map fst (executed ?s) @ queue ?s" by blast
  from r st have b: "accepted_before_stop (?s\<lparr>joining := False\<rparr>) \<le> length (executed (?s\<lparr>joining := False\<rparr>)) \<and>
            take (accepted_before_stop (?s\<lparr>joining := False\<rparr>)) (accepted (?s\<lparr>joining := False\<rparr>))
              = map fst (take (accepted_before_stop (?s\<lparr>joining := False\<rparr>)) (executed (?s\<lparr>joining := False\<rparr>)))"
    by blast
  show ?thesis
    apply (rule exI[of _ ?s])
    apply (rule exI[of _ "?s\<lparr>joining := False\<rparr>"])
    using drain_run_state st a b by simp
qed

text \<open>
  C6, as stated, fails for a logger that is not running: \<open>enqueue\<close> accepts a task (it
  returns true), \<open>stop()\<close> finds \<open>running\<close> clear and returns at once, and the accepted task
  has not been run; it is still in the queue.
\<close>

theorem stop_when_not_running_counterexample:
  "\<exists>s s'. run_events [Enqueue \<lparr>task_id = 0, throws = False\<rparr>] (new_BackgroundLogger 1000) = Some s
      \<and> fst (enqueue \<lparr>task_id = 0, throws = False\<rparr> (new_BackgroundLogger 1000))
      \<and> accepted s = [\<lparr>task_id = 0, throws = False\<rparr>]
      \<and> stop_returns StopCall s
      \<and> logger_step StopCall s = Some s'
      \<and> executed s' = []
      \<and> queue s' = [\<lparr>task_id = 0, throws = False\<rparr>]"
  by (simp add: new_BackgroundLogger_def enqueue_def stop_returns_def stop_call_def)

section \<open>Properties of LightningClient\<close>

lemma executePost_no_curl:
  "\<not> curl c \<Longrightarrow> executePost url b t inc c io = (new_CommandResult\<lparr>error := Some ''CURL not initialized''\<rparr>, io)"
  by (simp add: executePost_def)

lemma verifyPin_result:
  "verifyPin pin c io =
     (let out = verify_response pin c io;
          body = response_json out;
          io' = (if curl c then io\<lparr>io_log := io_log io @ [Sent (verify_request pin c)]\<rparr> else io)
      in if curl c \<and> curl_ok out \<and> http_code out = 200
         then (case isMember ''description'' body of
                 Inl e \<Rightarrow> (Inl e, c, io')
               | Inr has_description \<Rightarrow>
                   if has_description
                   then (case member_asString ''description'' body of
                           Inl e \<Rightarrow> (Inl e, c, io')
                         | Inr token \<Rightarrow>
                             if token \<noteq> [] \<and> token \<noteq> ''OK''
                             then (Inr token, c\<lparr>client_token := token\<rparr>, io')
                             else (Inr [], c, io'))
                   else (Inr [], c, io'))
         else (Inr [], c, io'))"
  by (auto simp: verifyPin_def executePost_def perform_def finish_request_def Let_def
      verify_response_def verify_request_def new_CommandResult_def response_json_def
      split: sum.splits)

lemma isMember_object:
  "isMember name (JObject ms) = Inr (map_of ms name \<noteq> None)"
  by simp

lemma member_asString_object:
  "map_of ms name = Some v \<Longrightarrow> member_asString name (JObject ms) = asString v"
  by (simp add: member_asString_def)

text \<open>
  Whatever the response, a call of \<open>verifyPin\<close> that does not store a token leaves the client
  as it was, also when an error of the JSON library leaves the call.
\<close>

lemma verifyPin_client:
  assumes "verifyPin pin c io = (r, c', io')"
  shows "c' = c \<or> (\<exists>tok. r = Inr tok \<and> c' = c\<lparr>client_token := tok\<rparr> \<and> tok \<noteq> [] \<and> tok \<noteq> ''OK'')"
proof (cases "curl c \<and> curl_ok (verify_response pin c io) \<and> http_code (verify_response pin c io) = 200")
  case False
  with assms show ?thesis by (auto simp: verifyPin_result Let_def)
next
  case ok: True
  let ?b = "response_json (verify_response pin c io)"
  show ?thesis
  proof (cases "isMember ''description'' ?b")
    case (Inl e)
    with ok assms show ?thesis by (auto simp: verifyPin_result Let_def)
  next
    case (Inr has_description)
    show ?thesis
    proof (cases has_description)
      case False
      with Inr ok assms show ?thesis by (auto simp: verifyPin_result Let_def)
    next
      case True
      show ?thesis
      proof (cases "member_asString ''description'' ?b")
        case (Inl e)
        with True Inr ok assms show ?thesis by (auto simp: verifyPin_result Let_def)
      next
        case t: (Inr token)
        show ?thesis
        proof (cases "token \<noteq> [] \<and> token \<noteq> ''OK''")
          case True
          with t \<open>has_description\<close> Inr ok assms
          have "r = Inr token \<and> c' = c\<lparr>client_token := token\<rparr>"
            by (simp add: verifyPin_result Let_def)
          with True show ?thesis by blast
        next
          case False
          with t \<open>has_description\<close> Inr ok assms have "c' = c"
            by (auto simp: verifyPin_result Let_def)
          then show ?thesis by simp
        qed
      qed
    qed
  qed
qed

lemma verifyPin_raise_keeps_client:
  assumes "verifyPin pin c io = (Inl e, c', io')"
  shows "c' = c"
  using verifyPin_client[OF assms] by auto

text \<open>
  On a body that is \<open>description_readable\<close>, every unsuccessful call returns the empty string
  and leaves the client as it was.
\<close>

lemma verifyPin_failure_on_readable_body:
  assumes "verifyPin pin c io = (r, c', io')"
    and "description_readable (response_json (verify_response pin c io))"
    and "\<not> curl c \<or> \<not> curl_ok (verify_response pin c io)
       \<or> http_code (verify_response pin c io) \<noteq> 200
       \<or> isMember ''description'' (response_json (verify_response pin c io)) = Inr False
       \<or> member_asString ''description'' (response_json (verify_response pin c io)) = Inr []
       \<or> member_asString ''description'' (response_json (verify_response pin c io)) = Inr ''OK''"
  shows "r = Inr [] \<and> c' = c"
proof (cases "curl c \<and> curl_ok (verify_response pin c io) \<and> http_code (verify_response pin c io) = 200")
  case False
  with assms(1) show ?thesis by (auto simp: verifyPin_result Let_def)
next
  case True
  let ?b = "response_json (verify_response pin c io)"
  from assms(2) consider "?b = JNull" | ms where "?b = JObject ms"
    by (cases ?b) (auto simp: description_readable_def)
  then show ?thesis
  proof cases
    case 1
    with True assms(1) show ?thesis by (auto simp: verifyPin_result Let_def)
  next
    case 2
    show ?thesis
    proof (cases "map_of ms ''description''")
      case None
      with 2 True assms(1) show ?thesis by (auto simp: verifyPin_result Let_def)
    next
      case (Some v)
      with 2 assms(2) obtain t where t: "member_asString ''description'' ?b = Inr t"
        by (cases v) (auto simp: description_readable_def member_asString_def)
      from Some 2 have m: "isMember ''description'' ?b = Inr True" by simp
      from assms(3) True m t have "t = [] \<or> t = ''OK''" by auto
      with True m t assms(1) show ?thesis by (auto simp: verifyPin_result Let_def)
    qed
  qed
qed





text \<open>
  C10. The device answers the verify request with status 200 and the body \<open>[]\<close>, a JSON
  array: a response without the \<open>description\<close> member. \<open>verifyPin\<close> does not return the empty
  string: the error the JSON library raises in \<open>isMember\<close> leaves the call. The client, its
  token field included, is as before the call.
\<close>

theorem verifyPin_array_body_raises:
  "verifyPin ''482913'' (new_LightningClient ''192.168.1.250'' ''0987654321'' ''old_token'' True)
       \<lparr>device = answering_device 200 (JArray []), curl_init_ok = True, io_log = []\<rparr>
     = (Inl LogicError,
        new_LightningClient ''192.168.1.250'' ''0987654321'' ''old_token'' True,
        \<lparr>device = answering_device 200 (JArray []), curl_init_ok = True,
          io_log = [Sent (verify_request ''482913''
                      (new_LightningClient ''192.168.1.250'' ''0987654321'' ''old_token'' True))]\<rparr>)"
  by (simp add: verifyPin_result verify_response_def answering_device_def response_json_def
      new_LightningClient_def Let_def)


section \<open>Properties of CommandHandler\<close>

lemma gets_of_executePost [simp]: "gets_of (snd (executePost url b t inc c io)) = gets_of io"
  by (simp add: executePost_def perform_def gets_of_def)

lemma gets_of_sendNavigationCommand [simp]: "gets_of (snd (sendNavigationCommand a c io)) = gets_of io"
  by (simp add: sendNavigationCommand_def)

lemma gets_of_sendMediaCommand [simp]: "gets_of (snd (sendMediaCommand a d c io)) = gets_of io"
  by (simp add: sendMediaCommand_def Let_def)

lemma gets_of_launchApp [simp]: "gets_of (snd (launchApp p c io)) = gets_of io"
  by (simp add: launchApp_def)

lemma gets_of_sendKeyboardInput [simp]: "gets_of (snd (sendKeyboardInput t c io)) = gets_of io"
  by (simp add: sendKeyboardInput_def)

lemma gets_of_wakeDevice [simp]: "gets_of (snd (wakeDevice c io)) = gets_of io"
proof -
  have "snd (wakeDevice c io) = snd (executePost (wake_url c) None WAKE_TIMEOUT False c io)"
    by (simp add: wakeDevice_def split: prod.splits)
  then show ?thesis by simp
qed

lemma gets_of_log_append [simp]:
  "\<not> is_get e \<Longrightarrow> gets_of (io\<lparr>io_log := io_log io @ [e]\<rparr>) = gets_of io"
  by (simp add: gets_of_def)

lemma gets_of_handleMediaCommand [simp]: "gets_of (handleMediaCommand c cmd io) = gets_of io"
  by (simp add: handleMediaCommand_def play_def pause_def scanForward_def scanBackward_def)

lemma gets_of_handleVolumeCommand [simp]: "gets_of (handleVolumeCommand c cmd io) = gets_of io"
  by (simp add: handleVolumeCommand_def)

lemma gets_of_handleNavigationCommand:
  "handleNavigationCommand c p io = Inr io' \<Longrightarrow> gets_of io' = gets_of io"
  by (auto simp: handleNavigationCommand_def dpadUp_def dpadDown_def dpadLeft_def dpadRight_def
      select_def home_def back_button_def menu_def split: sum.splits if_splits)

lemma gets_of_handlePowerCommand [simp]: "gets_of (handlePowerCommand c cmd io) = gets_of io"
proof -
  obtain woke io' where w: "wakeDevice c io = (woke, io')" by (cases "wakeDevice c io")
  then have "gets_of io' = gets_of io" using gets_of_wakeDevice[of c io] by simp
  then show ?thesis using w by (simp add: handlePowerCommand_def sleep_def)
qed

lemma gets_of_handleAppLaunchCommand:
  "handleAppLaunchCommand h c p io = Inr io' \<Longrightarrow> gets_of io' = gets_of io"
  by (auto simp: handleAppLaunchCommand_def Let_def split: sum.splits if_splits)

lemma gets_of_handleTextInputCommand:
  "handleTextInputCommand c p io = Inr io' \<Longrightarrow> gets_of io' = gets_of io"
  by (auto simp: handleTextInputCommand_def send_text_def split: sum.splits if_splits)

lemma gets_of_route_command:
  "route_command cmd p h c io = Inr io' \<Longrightarrow> gets_of io' = gets_of io"
  by (auto simp: route_command_def gets_of_handleNavigationCommand gets_of_handleAppLaunchCommand
      gets_of_handleTextInputCommand split: if_splits)

lemma handleCommand_never_checks_availability:
  "gets_of (snd (snd (handleCommand dev_id payload repo h io))) = gets_of io"
proof -
  obtain co h' where g: "getClientForDevice dev_id repo h io = (co, h')"
    by (cases "getClientForDevice dev_id repo h io")
  show ?thesis
    using g
    by (auto simp: handleCommand_def dest: gets_of_route_command split: sum.splits option.splits)
qed

lemma handleCommand_turn_on_log:
  "io_log (snd (snd (handleCommand ''living_room'' (JObject [(''command'', JString ''turn_on'')])
                  one_device_repo new_CommandHandler asleep_io)))
   = [Sent \<lparr>req_method = HttpPost,
             req_url = ''http://192.168.1.250:8009/apps/FireTVRemote'',
             req_headers = [''X-Api-Key: 0987654321'', ''Content-Type: application/json''],
             req_body = None, req_timeout = 5\<rparr>,
      LastSeenUpdated ''living_room'' ''online'']"
  by (simp add: handleCommand_def getClientForDevice_def one_device_repo_def new_CommandHandler_def
      asleep_io_def member_asString_def route_command_def starts_with_def handlePowerCommand_def wakeDevice_def
      executePost_def perform_def new_LightningClient_def buildHeaders_def
      WAKE_TIMEOUT_def finish_request_def
      unreachable_device_def new_CommandResult_def Let_def)


text \<open>
  C2. The dispatcher \<open>handleCommand\<close> has no ensure-awake step. For the command
  \<open>volume_up\<close>, sent to a device whose API does not respond, it posts the volume action
  straight away and records the device as seen: the log holds no availability check, no
  wake request and no settle wait. (No command makes it check availability, lemma
  \<open>handleCommand_never_checks_availability\<close>; \<open>turn_on\<close> posts the wake request only, lemma
  \<open>handleCommand_turn_on_log\<close>.)
\<close>

theorem handleCommand_volume_up_skips_ensure_awake:
  "io_log (snd (snd (handleCommand ''living_room'' (JObject [(''command'', JString ''volume_up'')])
                  one_device_repo new_CommandHandler asleep_io)))
   = [Sent \<lparr>req_method = HttpPost,
             req_url = ''https://192.168.1.250:8080/v1/FireTV?action=volume_up'',
             req_headers = [''X-Api-Key: 0987654321'', ''Content-Type: application/json''],
             req_body = None, req_timeout = 10\<rparr>,
      LastSeenUpdated ''living_room'' ''online'']
   \<and> fst (handleCommand ''living_room'' (JObject [(''command'', JString ''volume_up'')])
            one_device_repo new_CommandHandler asleep_io) = None
   \<and> \<not> fst (isLightningApiAvailable living_room_client asleep_io)"
  by (simp add: handleCommand_def getClientForDevice_def one_device_repo_def new_CommandHandler_def
      asleep_io_def member_asString_def route_command_def starts_with_def handleVolumeCommand_def
      sendNavigationCommand_def executePost_def perform_def new_LightningClient_def buildHeaders_def
      COMMAND_TIMEOUT_def isLightningApiAvailable_def executeGet_def finish_request_def
      unreachable_device_def new_CommandResult_def living_room_client_def Let_def)

section \<open>Properties of ConnectionPool\<close>








end
